theory Spec2Isabelle
  imports Complex_Main "HOL-Library.AList"
begin

section \<open>Values, missing values and rounding\<close>

text \<open>
  The two notebooks work on pandas tables of floating-point columns. A cell is modelled as
  an exact rational, or \<open>None\<close> for the missing value (NaN). Arithmetic is exact: the
  binary rounding of IEEE doubles is outside the model, the decimal rounding that the code
  asks for with \<^verbatim>\<open>.round(4)\<close> is inside it.
\<close>

type_synonym cell = "rat option"

text \<open>
  \<^verbatim>\<open>Series.round(4)\<close> is numpy's \<^verbatim>\<open>around\<close>: scale by \<open>10^4\<close>, round to the nearest integer
  with ties going to the even neighbour (\<^verbatim>\<open>rint\<close>), scale back. NaN stays NaN.
\<close>

definition rint :: "rat \<Rightarrow> int" where
  "rint x = (let f = \<lfloor>x\<rfloor>; d = x - of_int f in
     if d < 1 / 2 then f else if 1 / 2 < d then f + 1 else if even f then f else f + 1)"

definition round4 :: "rat \<Rightarrow> rat" where
  "round4 x = of_int (rint (x * 10000)) / 10000"

definition round_cells :: "cell list \<Rightarrow> cell list" where
  "round_cells xs = map (map_option round4) xs"

section \<open>Operations on one series\<close>

subsection \<open>Linear interpolation\<close>

text \<open>
  \<^verbatim>\<open>x.interpolate(method='linear', limit_direction='both')\<close>: the positions
  \<open>0, 1, 2, ...\<close> are the abscissae (the index is ignored by the linear method), the
  non-missing cells are the sample points, and every missing cell gets numpy's
  \<^verbatim>\<open>interp\<close> of its position. A series without any sample point is returned as it is.
\<close>

definition valid_points :: "cell list \<Rightarrow> (nat \<times> rat) list" where
  "valid_points xs = List.map_filter (\<lambda>(i, c). map_option (Pair i) c) (enumerate 0 xs)"

text \<open>
  \<^verbatim>\<open>np.interp(x, xp, fp)\<close> for a non-empty, increasing \<open>xp\<close>, given as the first sample point
  and the remaining ones: left of the first point and right of the last one the edge value
  is returned; between two neighbouring points the value is
  \<^verbatim>\<open>slope * (x - xp[j]) + fp[j]\<close> with \<^verbatim>\<open>slope = (fp[j+1] - fp[j]) / (xp[j+1] - xp[j])\<close>.
\<close>

fun np_interp :: "nat \<Rightarrow> nat \<times> rat \<Rightarrow> (nat \<times> rat) list \<Rightarrow> rat" where
  "np_interp x (x0, y0) [] = y0"
| "np_interp x (x0, y0) ((x1, y1) # ps) =
     (if x \<le> x0 then y0
      else if x < x1 then (y1 - y0) / (of_nat x1 - of_nat x0) * (of_nat x - of_nat x0) + y0
      else np_interp x (x1, y1) ps)"

definition interpolate :: "cell list \<Rightarrow> cell list" where
  "interpolate xs =
     (case valid_points xs of
        [] \<Rightarrow> xs
      | p # ps \<Rightarrow>
          map (\<lambda>(i, c). case c of Some v \<Rightarrow> Some v | None \<Rightarrow> Some (np_interp i p ps))
            (enumerate 0 xs))"

subsection \<open>Rolling mean and lag\<close>

text \<open>
  \<^verbatim>\<open>x.rolling(window=7, min_periods=1).mean()\<close>: the window of position \<open>i\<close> holds the
  cells at positions \<open>i - 6, ..., i\<close> that exist; the result is the mean of the non-missing
  cells of the window when there are at least \<open>min_periods\<close> of them, and missing otherwise.
\<close>

definition rolling_window :: "nat \<Rightarrow> 'a list \<Rightarrow> nat \<Rightarrow> 'a list" where
  "rolling_window w xs i = drop (Suc i - w) (take (Suc i) xs)"

definition window_mean :: "nat \<Rightarrow> cell list \<Rightarrow> cell" where
  "window_mean min_periods ws =
     (let vs = List.map_filter id ws in
      if vs \<noteq> [] \<and> min_periods \<le> length vs
      then Some (sum_list vs / of_nat (length vs)) else None)"

definition rolling_mean :: "cell list \<Rightarrow> cell list" where
  "rolling_mean xs = map (\<lambda>i. window_mean 1 (rolling_window 7 xs i)) [0..<length xs]"

text \<open>\<^verbatim>\<open>shift(1)\<close>: every cell moves one position down, the first cell becomes missing.\<close>

definition shift1 :: "cell list \<Rightarrow> cell list" where
  "shift1 xs = take (length xs) (None # xs)"

subsection \<open>Filling\<close>

text \<open>
  \<^verbatim>\<open>fillna(method='bfill')\<close> replaces a missing cell by the next non-missing one below it,
  \<^verbatim>\<open>fillna(method='ffill')\<close> by the last non-missing one above it; a missing cell with no
  such neighbour stays missing.
\<close>

fun bfill :: "'a option list \<Rightarrow> 'a option list" where
  "bfill [] = []"
| "bfill (Some v # xs) = Some v # bfill xs"
| "bfill (None # xs) = (case bfill xs of [] \<Rightarrow> [None] | y # ys \<Rightarrow> y # y # ys)"

fun ffill_from :: "'a option \<Rightarrow> 'a option list \<Rightarrow> 'a option list" where
  "ffill_from p [] = []"
| "ffill_from p (Some v # xs) = Some v # ffill_from (Some v) xs"
| "ffill_from p (None # xs) = p # ffill_from p xs"

definition ffill :: "'a option list \<Rightarrow> 'a option list" where
  "ffill xs = ffill_from None xs"

section \<open>Grouping by station\<close>

text \<open>
  \<^verbatim>\<open>groupby('Station_ID')\<close> splits the rows by the value of the key column, the groups
  ordered by ascending key, the rows of a group in table order.
\<close>

definition group_keys :: "int list \<Rightarrow> int list" where
  "group_keys ks = sort (remdups ks)"

definition group_values :: "int list \<Rightarrow> 'a list \<Rightarrow> int \<Rightarrow> 'a list" where
  "group_values ks xs s = map snd (filter (\<lambda>(k, x). k = s) (zip ks xs))"

text \<open>The rank of row \<open>i\<close> among the rows of its own group.\<close>

definition group_pos :: "int list \<Rightarrow> nat \<Rightarrow> nat" where
  "group_pos ks i = length (filter (\<lambda>k. k = ks ! i) (take i ks))"

text \<open>
  \<^verbatim>\<open>groupby(...)[col].apply(f).values\<close>: with pandas 2 (the notebook prints 2.2.3) the
  results of the groups are concatenated in group order, and \<^verbatim>\<open>.values\<close> drops the index:
  what is left is the bare sequence of values, group after group.
\<close>

definition groupby_apply_values :: "int list \<Rightarrow> (cell list \<Rightarrow> cell list) \<Rightarrow> cell list \<Rightarrow> cell list" where
  "groupby_apply_values ks f xs = concat (map (\<lambda>s. f (group_values ks xs s)) (group_keys ks))"

text \<open>
  \<^verbatim>\<open>groupby(...)[col].transform(f)\<close> and \<^verbatim>\<open>groupby(...)[col].shift(1)\<close> return a series on the
  index of the table: row \<open>i\<close> holds the result of its own group at the rank of \<open>i\<close> in the
  group.
\<close>

definition groupby_transform :: "int list \<Rightarrow> (cell list \<Rightarrow> cell list) \<Rightarrow> cell list \<Rightarrow> cell list" where
  "groupby_transform ks f xs =
     map (\<lambda>i. f (group_values ks xs (ks ! i)) ! group_pos ks i) [0..<length ks]"

section \<open>The table\<close>

text \<open>
  \<^verbatim>\<open>raw_data\<close> as it stands when the interpolation step starts (the timestamp is parsed
  and the calendar columns are added): the grouping key \<^verbatim>\<open>Station_ID\<close>, an integer column
  without missing values; the parsed \<^verbatim>\<open>Timestamp\<close>, a day number or missing (NaT); and the
  numeric columns by name, in table order. All columns of a table have its number of rows.
\<close>

record dataframe =
  station_id :: "int list"
  timestamp :: "int option list"
  columns :: "(string \<times> cell list) list"

definition wf_frame :: "dataframe \<Rightarrow> bool" where
  "wf_frame df \<longleftrightarrow>
     length (timestamp df) = length (station_id df) \<and>
     list_all (\<lambda>(name, xs). length xs = length (station_id df)) (columns df) \<and>
     distinct (map fst (columns df))"

datatype error = KeyError | ValueError

text \<open>\<^verbatim>\<open>name in raw_data.columns\<close>, \<^verbatim>\<open>raw_data[name]\<close> and \<^verbatim>\<open>raw_data[name] = values\<close>
  (an existing column keeps its place, a new one is appended).\<close>

definition has_col :: "dataframe \<Rightarrow> string \<Rightarrow> bool" where
  "has_col df name \<longleftrightarrow> name \<in> set (map fst (columns df))"

definition get_col :: "dataframe \<Rightarrow> string \<Rightarrow> error + cell list" where
  "get_col df name = (case map_of (columns df) name of None \<Rightarrow> Inl KeyError | Some xs \<Rightarrow> Inr xs)"

definition set_col :: "dataframe \<Rightarrow> string \<Rightarrow> cell list \<Rightarrow> dataframe" where
  "set_col df name xs = df\<lparr>columns := AList.update name xs (columns df)\<rparr>"

text \<open>\<^verbatim>\<open>raw_data[[name, ...]]\<close>: the listed columns, or \<^verbatim>\<open>KeyError\<close> when one is absent.\<close>

fun select_columns :: "dataframe \<Rightarrow> string list \<Rightarrow> error + cell list list" where
  "select_columns df [] = Inr []"
| "select_columns df (name # names) =
     (case get_col df name of
        Inl e \<Rightarrow> Inl e
      | Inr xs \<Rightarrow> (case select_columns df names of Inl e \<Rightarrow> Inl e | Inr xss \<Rightarrow> Inr (xs # xss)))"

section \<open>The Feature Engineering Stage\<close>

text \<open>The column names carry the UTF-8 bytes of the micro sign and of the superscript three.\<close>

definition micro :: string where
  "micro = [CHR 0xC2, CHR 0xB5]"

definition cubed :: string where
  "cubed = [CHR 0xC2, CHR 0xB3]"

definition pm25 :: string where
  "pm25 = ''PM2.5 ('' @ micro @ ''g/m'' @ cubed @ '')''"

definition pm10 :: string where
  "pm10 = ''PM10 ('' @ micro @ ''g/m'' @ cubed @ '')''"

definition nox :: string where
  "nox = ''NOx (ppb)''"

definition co :: string where
  "co = ''CO (mg/m'' @ cubed @ '')''"

definition ozone :: string where
  "ozone = ''Ozone ('' @ micro @ ''g/m'' @ cubed @ '')''"

text \<open>\<^verbatim>\<open>core_features = ['PM2.5 (...)', 'PM10 (...)', 'NOx (ppb)', 'CO (...)', 'Ozone (...)']\<close>,
  and the names \<^verbatim>\<open>f'{feature}_rolling_mean'\<close> and \<^verbatim>\<open>f'{feature}_lag_1'\<close>.\<close>

definition core_features :: "string list" where
  "core_features = [pm25, pm10, nox, co, ozone]"

definition rolling_mean_name :: "string \<Rightarrow> string" where
  "rolling_mean_name feature = feature @ ''_rolling_mean''"

definition lag_1_name :: "string \<Rightarrow> string" where
  "lag_1_name feature = feature @ ''_lag_1''"

text \<open>A loop over the features whose body may raise: the first error ends the loop.\<close>

fun for_each :: "('a \<Rightarrow> 's \<Rightarrow> error + 's) \<Rightarrow> 'a list \<Rightarrow> 's \<Rightarrow> error + 's" where
  "for_each body [] s = Inr s"
| "for_each body (x # xs) s = (case body x s of Inl e \<Rightarrow> Inl e | Inr s' \<Rightarrow> for_each body xs s')"

subsection \<open>Step 5: interpolation\<close>

text \<open>
  \<^verbatim>\<open>
  for feature in core_features:
      if feature in raw_data.columns:
          interpolated_data = (
              raw_data.reset_index()
              .groupby('Station_ID')[feature]
              .apply(lambda x: x.interpolate(method='linear', limit_direction='both'))
          )
          raw_data[feature] = interpolated_data.values
          raw_data[feature] = raw_data[feature].round(4)
  \<close>
  The two assignments are one in the model: the column becomes the rounded values.
\<close>

definition interpolate_feature :: "string \<Rightarrow> dataframe \<Rightarrow> error + dataframe" where
  "interpolate_feature feature raw_data =
     (if has_col raw_data feature then
        (case get_col raw_data feature of
           Inl e \<Rightarrow> Inl e
         | Inr xs \<Rightarrow>
             (let interpolated_data = groupby_apply_values (station_id raw_data) interpolate xs
              in if length interpolated_data \<noteq> length (station_id raw_data) then Inl ValueError
                 else Inr (set_col raw_data feature (round_cells interpolated_data))))
      else Inr raw_data)"

definition step5 :: "dataframe \<Rightarrow> error + dataframe" where
  "step5 raw_data = for_each interpolate_feature core_features raw_data"

subsection \<open>Step 6: rolling means and lags\<close>

text \<open>
  \<^verbatim>\<open>
  for feature in core_features:
      if feature in raw_data.columns:
          raw_data[f'{feature}_rolling_mean'] = raw_data.groupby("Station_ID")[feature].transform(
              lambda x: x.rolling(window=7, min_periods=1).mean()
          ).round(4)
          raw_data[f'{feature}_lag_1'] = raw_data.groupby("Station_ID")[feature].shift(1).round(4)
  print(raw_data[[f'{feature}_rolling_mean' for feature in core_features]].head())
  \<close>
  The argument of the \<^verbatim>\<open>print\<close> selects the rolling-mean columns of all five core features,
  outside the guard of the loop.
\<close>

definition derive_feature :: "string \<Rightarrow> dataframe \<Rightarrow> error + dataframe" where
  "derive_feature feature raw_data =
     (if has_col raw_data feature then
        (case get_col raw_data feature of
           Inl e \<Rightarrow> Inl e
         | Inr xs \<Rightarrow>
             (let df1 = set_col raw_data (rolling_mean_name feature)
                          (round_cells (groupby_transform (station_id raw_data) rolling_mean xs))
              in case get_col df1 feature of
                   Inl e \<Rightarrow> Inl e
                 | Inr ys \<Rightarrow>
                     Inr (set_col df1 (lag_1_name feature)
                            (round_cells (groupby_transform (station_id df1) shift1 ys)))))
      else Inr raw_data)"

definition step6_loop :: "dataframe \<Rightarrow> error + dataframe" where
  "step6_loop raw_data = for_each derive_feature core_features raw_data"

definition step6 :: "dataframe \<Rightarrow> error + dataframe" where
  "step6 raw_data =
     (case step6_loop raw_data of
        Inl e \<Rightarrow> Inl e
      | Inr df \<Rightarrow>
          (case select_columns df (map rolling_mean_name core_features) of
             Inl e \<Rightarrow> Inl e
           | Inr preview \<Rightarrow> Inr df))"

subsection \<open>Step 7: backward fill of the derived columns\<close>

text \<open>
  \<^verbatim>\<open>
  for feature in core_features:
      if feature in raw_data.columns:
          raw_data[f'{feature}_lag_1'] = raw_data[f'{feature}_lag_1'].fillna(method='bfill').round(4)
          raw_data[f'{feature}_rolling_mean'] = raw_data[f'{feature}_rolling_mean'].fillna(method='bfill').round(4)
  print(raw_data[[f'{feature}_lag_1' for feature in core_features]].head())
  \<close>
  The fill runs down the whole column, not station by station.
\<close>

definition backfill_feature :: "string \<Rightarrow> dataframe \<Rightarrow> error + dataframe" where
  "backfill_feature feature raw_data =
     (if has_col raw_data feature then
        (case get_col raw_data (lag_1_name feature) of
           Inl e \<Rightarrow> Inl e
         | Inr lag \<Rightarrow>
             (let df1 = set_col raw_data (lag_1_name feature) (round_cells (bfill lag))
              in case get_col df1 (rolling_mean_name feature) of
                   Inl e \<Rightarrow> Inl e
                 | Inr rm \<Rightarrow> Inr (set_col df1 (rolling_mean_name feature) (round_cells (bfill rm)))))
      else Inr raw_data)"

definition step7_loop :: "dataframe \<Rightarrow> error + dataframe" where
  "step7_loop raw_data = for_each backfill_feature core_features raw_data"

definition step7 :: "dataframe \<Rightarrow> error + dataframe" where
  "step7 raw_data =
     (case step7_loop raw_data of
        Inl e \<Rightarrow> Inl e
      | Inr df \<Rightarrow>
          (case select_columns df (map lag_1_name core_features) of
             Inl e \<Rightarrow> Inl e
           | Inr preview \<Rightarrow> Inr df))"

subsection \<open>Steps 8 and 9: forward fill of the whole table, final rounding\<close>

text \<open>
  \<^verbatim>\<open>raw_data = raw_data.fillna(method='ffill').round(4)\<close> fills every column of the table
  downwards, the key and the timestamp included, and rounds the numeric ones;
  \<^verbatim>\<open>cleaned_data = raw_data.reset_index(drop=True).round(4)\<close> rounds once more. An integer
  key and a timestamp are not touched by the rounding.
\<close>

definition step8 :: "dataframe \<Rightarrow> dataframe" where
  "step8 raw_data =
     raw_data\<lparr>timestamp := ffill (timestamp raw_data),
       columns := map (\<lambda>(name, xs). (name, round_cells (ffill xs))) (columns raw_data)\<rparr>"

definition step9 :: "dataframe \<Rightarrow> dataframe" where
  "step9 raw_data =
     raw_data\<lparr>columns := map (\<lambda>(name, xs). (name, round_cells xs)) (columns raw_data)\<rparr>"

definition feature_engineering :: "dataframe \<Rightarrow> error + dataframe" where
  "feature_engineering raw_data =
     (case step5 raw_data of
        Inl e \<Rightarrow> Inl e
      | Inr d5 \<Rightarrow>
          (case step6 d5 of
             Inl e \<Rightarrow> Inl e
           | Inr d6 \<Rightarrow>
               (case step7 d6 of
                  Inl e \<Rightarrow> Inl e
                | Inr d7 \<Rightarrow> Inr (step9 (step8 d7)))))"

section \<open>The Dataset Builder\<close>

text \<open>
  The second notebook reads the table the first one wrote (\<^verbatim>\<open>data\<close>), selects 14 feature
  columns and the target column, scales both to the unit interval, gives every sample one
  time step, and splits without shuffling.
\<close>

definition features :: "string list" where
  "features =
     [pm10, nox, co, ozone,
      pm25 @ ''_rolling_mean'', pm25 @ ''_lag_1'',
      pm10 @ ''_rolling_mean'', pm10 @ ''_lag_1'',
      nox @ ''_rolling_mean'', nox @ ''_lag_1'',
      co @ ''_rolling_mean'', co @ ''_lag_1'',
      ozone @ ''_rolling_mean'', ozone @ ''_lag_1'']"

definition target :: string where
  "target = pm25"

subsection \<open>The min-max scaler\<close>











subsection \<open>The split\<close>





subsection \<open>Step 3 of the model notebook\<close>





section \<open>Auxiliary notions for the statements\<close>

text \<open>The sample points of a series whose first position has number \<open>n\<close>.\<close>

definition vp :: "nat \<Rightarrow> cell list \<Rightarrow> (nat \<times> rat) list" where
  "vp n xs = List.map_filter (\<lambda>(i, c). map_option (Pair i) c) (enumerate n xs)"

text \<open>What the interpolation step and the derivation step make of one column, and the names
  of the derived columns of a list of features.\<close>

definition interpolated_column :: "int list \<Rightarrow> cell list \<Rightarrow> cell list" where
  "interpolated_column ks xs = round_cells (groupby_apply_values ks interpolate xs)"

definition rolling_column :: "int list \<Rightarrow> cell list \<Rightarrow> cell list" where
  "rolling_column ks xs = round_cells (groupby_transform ks rolling_mean xs)"

definition lag_column :: "int list \<Rightarrow> cell list \<Rightarrow> cell list" where
  "lag_column ks xs = round_cells (groupby_transform ks shift1 xs)"

definition derived_names :: "string list \<Rightarrow> string list" where
  "derived_names fs = map rolling_mean_name fs @ map lag_1_name fs"

text \<open>One row of a table: its key, its timestamp and its named cells.\<close>

definition row_of :: "dataframe \<Rightarrow> nat \<Rightarrow> int \<times> int option \<times> (string \<times> cell) list" where
  "row_of df i =
     (station_id df ! i, timestamp df ! i, map (\<lambda>(name, xs). (name, xs ! i)) (columns df))"

text \<open>The table after the interpolation step and the loop of the derivation step, before
  any fill.\<close>

definition derived_table :: "dataframe \<Rightarrow> error + dataframe" where
  "derived_table raw_data = (case step5 raw_data of Inl e \<Rightarrow> Inl e | Inr d5 \<Rightarrow> step6_loop d5)"

text \<open>A column of the result of a step that may have raised.\<close>

definition column_of :: "error + dataframe \<Rightarrow> string \<Rightarrow> error + cell list" where
  "column_of result name = (case result of Inl e \<Rightarrow> Inl e | Inr df \<Rightarrow> get_col df name)"

section \<open>Example tables\<close>

text \<open>Small tables for the concrete evaluations below: consecutive days, and one series of
  values shared by the listed columns.\<close>

definition days :: "nat \<Rightarrow> int option list" where
  "days n = map (\<lambda>i. Some (int i)) [0..<n]"

definition core_table :: "int list \<Rightarrow> cell list \<Rightarrow> dataframe" where
  "core_table ks xs =
     \<lparr>station_id = ks, timestamp = days (length ks), columns = map (\<lambda>f. (f, xs)) core_features\<rparr>"


text \<open>A column outside the core pollutants, and a table without one of its columns
  (\<^verbatim>\<open>raw_data.drop(columns=[name])\<close>).\<close>

definition nh3 :: string where
  "nh3 = ''NH3 ('' @ micro @ ''g/m'' @ cubed @ '')''"

definition drop_column :: "dataframe \<Rightarrow> string \<Rightarrow> dataframe" where
  "drop_column df name = df\<lparr>columns := AList.delete name (columns df)\<rparr>"

section \<open>Columns of a table\<close>

lemma get_col_Inr_iff: "get_col df name = Inr xs \<longleftrightarrow> map_of (columns df) name = Some xs"
  by (simp add: get_col_def split: option.splits)

lemma has_col_get_col: "has_col df name \<longleftrightarrow> (\<exists>xs. get_col df name = Inr xs)"
  by (auto simp: has_col_def get_col_Inr_iff map_of_eq_Some_iff weak_map_of_SomeI
      dest: map_of_SomeD intro: rev_image_eqI)

lemma wf_get_col_length:
  assumes "wf_frame df" and "get_col df name = Inr xs"
  shows "length xs = length (station_id df)"
proof -
  have "(name, xs) \<in> set (columns df)" using assms(2) by (auto simp: get_col_Inr_iff dest: map_of_SomeD)
  then show ?thesis using assms(1) by (auto simp: wf_frame_def list_all_iff)
qed

lemmas name_defs = target_def features_def core_features_def rolling_mean_name_def lag_1_name_def
  pm25_def pm10_def nox_def co_def ozone_def micro_def cubed_def

lemma get_col_set_col: "get_col (set_col df n xs) m = (if m = n then Inr xs else get_col df m)"
  by (simp add: get_col_def set_col_def update_conv')

lemma has_col_set_col: "has_col (set_col df n xs) m \<longleftrightarrow> m = n \<or> has_col df m"
  by (auto simp: has_col_def set_col_def dom_update)

lemma station_id_set_col [simp]: "station_id (set_col df n xs) = station_id df"
  by (simp add: set_col_def)

lemma timestamp_set_col [simp]: "timestamp (set_col df n xs) = timestamp df"
  by (simp add: set_col_def)

lemma set_update_subset: "set (AList.update k v al) \<subseteq> insert (k, v) (set al)"
  by (induction al) auto

lemma wf_set_col:
  assumes "wf_frame df" and "length xs = length (station_id df)"
  shows "wf_frame (set_col df n xs)"
  using assms set_update_subset[of n xs "columns df"]
  by (auto simp: wf_frame_def set_col_def distinct_update list_all_iff)

lemma get_col_cases: "get_col df m = Inl KeyError \<or> (\<exists>xs. get_col df m = Inr xs)"
  by (simp add: get_col_def split: option.splits)

lemma has_col_iff_not_KeyError: "has_col df m \<longleftrightarrow> get_col df m \<noteq> Inl KeyError"
  using get_col_cases[of df m] by (auto simp: has_col_get_col)

section \<open>The chronological split\<close>







section \<open>The min-max scaler\<close>

lemma map_filter_id_eq_Nil: "List.map_filter id xs = [] \<longleftrightarrow> (\<forall>x\<in>set xs. x = None)"
  by (induction xs) (auto simp: List.map_filter_def)








section \<open>The Dataset Builder: scaled values and the round trip\<close>

lemma select_columns_Inr:
  assumes "\<forall>name\<in>set names. \<exists>xs. get_col df name = Inr xs \<and> P xs"
  shows "\<exists>cols. select_columns df names = Inr cols \<and> length cols = length names \<and> (\<forall>c\<in>set cols. P c)"
  using assms
proof (induction names)
  case Nil
  then show ?case by simp
next
  case (Cons name names)
  then obtain xs where xs: "get_col df name = Inr xs" "P xs" by auto
  obtain cols where cols: "select_columns df names = Inr cols" "length cols = length names" "\<forall>c\<in>set cols. P c"
    using Cons by auto
  show ?case using xs cols by simp
qed












section \<open>Series\<close>

subsection \<open>Lengths\<close>

lemma length_round_cells [simp]: "length (round_cells xs) = length xs"
  by (simp add: round_cells_def)

lemma length_interpolate [simp]: "length (interpolate xs) = length xs"
  by (simp add: interpolate_def split: list.splits)

lemma length_rolling_mean [simp]: "length (rolling_mean xs) = length xs"
  by (simp add: rolling_mean_def)

lemma length_shift1 [simp]: "length (shift1 xs) = length xs"
  by (simp add: shift1_def)

lemma length_bfill [simp]: "length (bfill xs) = length xs"
  by (induction xs rule: bfill.induct) (auto split: list.splits)

lemma length_ffill_from [simp]: "length (ffill_from p xs) = length xs"
  by (induction p xs rule: ffill_from.induct) auto

lemma length_ffill [simp]: "length (ffill xs) = length xs"
  by (simp add: ffill_def)

subsection \<open>Rounding\<close>

lemma rint_of_int [simp]: "rint (of_int k) = k"
  by (simp add: rint_def)

lemma round4_idem [simp]: "round4 (round4 x) = round4 x"
  by (simp add: round4_def)

lemma round_cells_idem [simp]: "round_cells (round_cells xs) = round_cells xs"
  by (simp add: round_cells_def option.map_comp o_def)

lemma round_cells_nth: "i < length xs \<Longrightarrow> round_cells xs ! i = map_option round4 (xs ! i)"
  by (simp add: round_cells_def)

subsection \<open>Interpolation\<close>

lemma vp_simps [simp]:
  "vp n [] = []"
  "vp n (Some a # xs) = (n, a) # vp (Suc n) xs"
  "vp n (None # xs) = vp (Suc n) xs"
  by (simp_all add: vp_def List.map_filter_def)

lemma vp_append: "vp n (xs @ ys) = vp n xs @ vp (n + length xs) ys"
  by (induction xs arbitrary: n) (auto split: option.splits simp: vp_simps, (case_tac a; simp)+)

lemma vp_bounds: "(j, v) \<in> set (vp n xs) \<Longrightarrow> n \<le> j \<and> j < n + length xs"
proof (induction xs arbitrary: n)
  case Nil
  then show ?case by simp
next
  case (Cons c xs)
  then show ?case by (cases c) (auto dest: Cons.IH)
qed

lemma valid_points_vp: "valid_points xs = vp 0 xs"
  by (simp add: valid_points_def vp_def)

lemma np_interp_skip:
  "fst q < x \<Longrightarrow> \<forall>p\<in>set qs. fst p < x \<Longrightarrow> l \<le> x \<Longrightarrow>
   np_interp x q (qs @ (l, a) # rest) = np_interp x (l, a) rest"
proof (induction qs arbitrary: q)
  case Nil
  then show ?case by (cases q) simp
next
  case (Cons r qs)
  then show ?case by (cases q; cases r) simp
qed

lemma interpolate_nth:
  assumes "i < length xs" and "valid_points xs = p # ps"
  shows "interpolate xs ! i = (case xs ! i of Some v \<Rightarrow> Some v | None \<Rightarrow> Some (np_interp i p ps))"
  using assms by (simp add: interpolate_def nth_enumerate_eq)

lemma interpolate_gap:
  assumes "xs = pre @ [Some a, None, Some b] @ post"
  shows "interpolate xs ! Suc (length pre) = Some ((a + b) / 2)"
proof -
  let ?i = "Suc (length pre)"
  have v: "valid_points xs = vp 0 pre @ (length pre, a) # (Suc ?i, b) # vp (Suc (Suc ?i)) post"
    by (simp add: valid_points_vp assms vp_append)
  have mid: "np_interp ?i (length pre, a) ((Suc ?i, b) # rest) = (a + b) / 2" for rest
    by (simp add: field_simps)
  have i: "?i < length xs" "xs ! ?i = None" by (simp_all add: assms nth_append)
  show ?thesis
  proof (cases "vp 0 pre")
    case Nil
    then show ?thesis using v i mid by (simp add: interpolate_nth)
  next
    case (Cons q qs)
    have b: "\<forall>p\<in>set (q # qs). fst p < ?i" using vp_bounds[of _ _ 0 pre] Cons by fastforce
    have "valid_points xs = q # (qs @ (length pre, a) # (Suc ?i, b) # vp (Suc (Suc ?i)) post)"
      using v Cons by simp
    then have "interpolate xs ! ?i =
        Some (np_interp ?i q (qs @ (length pre, a) # (Suc ?i, b) # vp (Suc (Suc ?i)) post))"
      using i by (simp add: interpolate_nth)
    also have "np_interp ?i q (qs @ (length pre, a) # (Suc ?i, b) # vp (Suc (Suc ?i)) post) =
        np_interp ?i (length pre, a) ((Suc ?i, b) # vp (Suc (Suc ?i)) post)"
      using b by (intro np_interp_skip) auto
    finally show ?thesis using mid by simp
  qed
qed

lemma gap_decomposition:
  assumes "0 < i" and "i + 1 < length xs"
    and "xs ! i = None" and "xs ! (i - 1) = Some a" and "xs ! (i + 1) = Some b"
  shows "xs = take (i - 1) xs @ [Some a, None, Some b] @ drop (i + 2) xs"
proof -
  have "xs = take (i - 1) xs @ drop (i - 1) xs" by simp
  also have "drop (i - 1) xs = xs ! (i - 1) # drop i xs"
    using assms(1,2) Cons_nth_drop_Suc[of "i - 1" xs] by simp
  also have "drop i xs = xs ! i # drop (Suc i) xs"
    using assms(2) Cons_nth_drop_Suc[of i xs] by simp
  also have "drop (Suc i) xs = xs ! (i + 1) # drop (i + 2) xs"
    using assms(2) Cons_nth_drop_Suc[of "Suc i" xs] by simp
  finally show ?thesis using assms(3,4,5) by simp
qed



section \<open>Grouped operations\<close>

subsection \<open>Groups\<close>

lemma group_values_Nil [simp]: "group_values [] xs s = []" "group_values ks [] s = []"
  by (simp_all add: group_values_def)

lemma group_values_append:
  "length ks1 = length xs1 \<Longrightarrow>
   group_values (ks1 @ ks2) (xs1 @ xs2) s = group_values ks1 xs1 s @ group_values ks2 xs2 s"
  by (simp add: group_values_def)

lemma group_values_absent: "s \<notin> set ks \<Longrightarrow> group_values ks xs s = []"
  by (auto simp: group_values_def filter_empty_conv dest: set_zip_leftD)

lemma group_values_replicate: "length xs = m \<Longrightarrow> group_values (replicate m s) xs s = xs"
proof -
  assume l: "length xs = m"
  have "filter (\<lambda>(k, x). k = s) (zip (replicate m s) xs) = zip (replicate m s) xs"
    by (rule filter_True) (auto dest: set_zip_leftD)
  then show ?thesis using l by (simp add: group_values_def)
qed

lemma group_values_map: "group_values ks (map g xs) s = map g (group_values ks xs s)"
proof -
  have "zip ks (map g xs) = map (\<lambda>(k, x). (k, g x)) (zip ks xs)" by (simp add: zip_map2)
  then show ?thesis
    by (simp add: group_values_def filter_map o_def case_prod_unfold)
qed

lemma length_group_values:
  "length xs = length ks \<Longrightarrow> length (group_values ks xs s) = length (filter (\<lambda>k. k = s) ks)"
proof (induction ks xs rule: list_induct2')
  case (4 k ks x xs)
  then show ?case by (simp add: group_values_def)
qed (simp_all add: group_values_def)

lemma group_values_nths:
  assumes "length xs = length ks"
  shows "group_values ks xs s = map (\<lambda>i. xs ! i) (filter (\<lambda>i. ks ! i = s) [0..<length ks])"
proof -
  let ?z = "zip ks xs"
  have "filter (\<lambda>(k, x). k = s) ?z = filter (\<lambda>(k, x). k = s) (map (nth ?z) [0..<length ?z])"
    by (simp only: map_nth)
  also have "\<dots> = map (nth ?z) (filter ((\<lambda>(k, x). k = s) \<circ> nth ?z) [0..<length ?z])"
    by (simp only: filter_map)
  also have "filter ((\<lambda>(k, x). k = s) \<circ> nth ?z) [0..<length ?z] = filter (\<lambda>i. ks ! i = s) [0..<length ks]"
    using assms by (intro filter_cong) auto
  finally have "group_values ks xs s = map snd (map (nth ?z) (filter (\<lambda>i. ks ! i = s) [0..<length ks]))"
    by (simp add: group_values_def)
  also have "\<dots> = map (\<lambda>i. xs ! i) (filter (\<lambda>i. ks ! i = s) [0..<length ks])"
    using assms by simp
  finally show ?thesis .
qed

lemma group_pos_append_left: "i < length ks \<Longrightarrow> group_pos (ks @ ls) i = group_pos ks i"
  by (simp add: group_pos_def nth_append)

lemma group_pos_append_right:
  "i < length ls \<Longrightarrow>
   group_pos (ks @ ls) (length ks + i) = length (filter (\<lambda>k. k = ls ! i) ks) + group_pos ls i"
  by (simp add: group_pos_def nth_append)

lemma group_pos_replicate: "i < m \<Longrightarrow> group_pos (replicate m s) i = i"
  by (simp add: group_pos_def)

lemma group_pos_rows:
  "map (group_pos ks) (filter (\<lambda>i. ks ! i = s) [0..<length ks]) =
   [0..<length (filter (\<lambda>k. k = s) ks)]"
proof (induction ks rule: rev_induct)
  case Nil
  then show ?case by simp
next
  case (snoc k ks)
  have a: "filter (\<lambda>i. (ks @ [k]) ! i = s) [0..<length ks] = filter (\<lambda>i. ks ! i = s) [0..<length ks]"
    by (intro filter_cong) (auto simp: nth_append)
  have b: "map (group_pos (ks @ [k])) (filter (\<lambda>i. ks ! i = s) [0..<length ks]) =
           map (group_pos ks) (filter (\<lambda>i. ks ! i = s) [0..<length ks])"
    by (intro map_cong) (auto simp: group_pos_append_left)
  have c: "group_pos (ks @ [k]) (length ks) = length (filter (\<lambda>x. x = k) ks)"
    by (simp add: group_pos_def)
  show ?case using snoc a b c by (cases "k = s") simp_all
qed

text \<open>The row's own cell sits in the series of its station at the rank of the row.\<close>

lemma group_values_at_pos:
  assumes "length xs = length ks" and "i < length ks"
  shows "group_pos ks i < length (group_values ks xs (ks ! i))"
    and "group_values ks xs (ks ! i) ! group_pos ks i = xs ! i"
proof -
  have t: "ks = take i ks @ ks ! i # drop (Suc i) ks" "xs = take i xs @ xs ! i # drop (Suc i) xs"
    using assms by (simp_all add: id_take_nth_drop[symmetric])
  have l: "length (take i ks) = length (take i xs)" using assms by simp
  have g: "group_values ks xs (ks ! i) =
      group_values (take i ks) (take i xs) (ks ! i) @
      xs ! i # group_values (drop (Suc i) ks) (drop (Suc i) xs) (ks ! i)"
    apply (subst t(1), subst t(2))
    apply (subst group_values_append[OF l])
    apply (simp add: group_values_def)
    done
  have p: "group_pos ks i = length (group_values (take i ks) (take i xs) (ks ! i))"
    using l by (simp add: group_pos_def length_group_values)
  show "group_pos ks i < length (group_values ks xs (ks ! i))"
    by (subst g) (simp add: p)
  show "group_values ks xs (ks ! i) ! group_pos ks i = xs ! i"
    by (subst g) (simp add: p nth_append)
qed

subsection \<open>Results of the grouped operations\<close>

lemma length_groupby_transform [simp]: "length (groupby_transform ks f xs) = length ks"
  by (simp add: groupby_transform_def)

lemma groupby_transform_nth:
  "i < length ks \<Longrightarrow>
   groupby_transform ks f xs ! i = f (group_values ks xs (ks ! i)) ! group_pos ks i"
  by (simp add: groupby_transform_def)

text \<open>The station series of a transformed column is the transformed station series.\<close>

lemma group_values_groupby_transform:
  assumes "length xs = length ks" and "\<And>g. length (f g) = length g"
  shows "group_values ks (groupby_transform ks f xs) s = f (group_values ks xs s)"
proof -
  let ?rows = "filter (\<lambda>i. ks ! i = s) [0..<length ks]"
  let ?G = "group_values ks xs s"
  have lG: "length (f ?G) = length (filter (\<lambda>k. k = s) ks)"
    using assms by (simp add: length_group_values)
  have "group_values ks (groupby_transform ks f xs) s = map (\<lambda>i. groupby_transform ks f xs ! i) ?rows"
    by (rule group_values_nths) simp
  also have "\<dots> = map (\<lambda>i. f ?G ! group_pos ks i) ?rows"
    by (intro map_cong) (auto simp: groupby_transform_nth)
  also have "\<dots> = map (nth (f ?G)) (map (group_pos ks) ?rows)" by (simp add: o_def)
  also have "\<dots> = map (nth (f ?G)) [0..<length (f ?G)]" by (simp only: group_pos_rows lG)
  also have "\<dots> = f ?G" by (rule map_nth)
  finally show ?thesis .
qed

lemma group_keys_set [simp]: "set (group_keys ks) = set ks"
  by (simp add: group_keys_def)

lemma distinct_group_keys [simp]: "distinct (group_keys ks)"
  by (simp add: group_keys_def)

lemma length_groupby_apply_values:
  assumes "length xs = length ks" and "\<And>g. length (f g) = length g"
  shows "length (groupby_apply_values ks f xs) = length ks"
proof -
  have "length (groupby_apply_values ks f xs) =
      sum_list (map (\<lambda>s. length (filter (\<lambda>k. k = s) ks)) (group_keys ks))"
    using assms by (simp add: groupby_apply_values_def length_concat o_def length_group_values)
  also have "\<dots> = (\<Sum>s\<in>set ks. count_list ks s)"
    by (simp add: sum_list_distinct_conv_sum_set count_list_eq_length_filter eq_commute)
  also have "\<dots> = length ks" by (rule sum_count_set) simp_all
  finally show ?thesis .
qed

lemma group_keys_sorted_list: "group_keys ks = sorted_list_of_set (set ks)"
  by (simp add: group_keys_def sorted_list_of_set_sort_remdups)

lemma group_keys_Cons_least:
  assumes "\<forall>x\<in>set ks. k \<le> x"
  shows "group_keys (k # ks) = k # sorted_list_of_set (set ks - {k})"
proof -
  have m: "Min (set (k # ks)) = k" using assms by (intro Min_eqI) auto
  have "sorted_list_of_set (set (k # ks)) =
      Min (set (k # ks)) # sorted_list_of_set (set (k # ks) - {Min (set (k # ks))})"
    by (rule sorted_list_of_set_nonempty) simp_all
  then show ?thesis unfolding m by (simp add: group_keys_sorted_list)
qed

lemma group_keys_least:
  assumes "k \<in> set ks" and "\<forall>x\<in>set ks. k \<le> x"
  shows "group_keys ks = k # sorted_list_of_set (set ks - {k})"
proof -
  have m: "Min (set ks) = k" using assms by (intro Min_eqI) auto
  have "sorted_list_of_set (set ks) = Min (set ks) # sorted_list_of_set (set ks - {Min (set ks)})"
    using assms(1) by (intro sorted_list_of_set_nonempty) auto
  then show ?thesis unfolding m by (simp add: group_keys_sorted_list)
qed

lemma group_values_Cons:
  "group_values (k # ks) (x # xs) s = (if k = s then x # group_values ks xs s else group_values ks xs s)"
  by (simp add: group_values_def)

text \<open>Regrouping a table whose key column is ascending gives the table back.\<close>

lemma regroup_sorted:
  assumes "sorted ks" and "length xs = length ks"
  shows "concat (map (group_values ks xs) (group_keys ks)) = xs"
  using assms
proof (induction ks arbitrary: xs)
  case Nil
  then show ?case by (simp add: group_keys_def)
next
  case (Cons k ks)
  then obtain x xs' where xs: "xs = x # xs'" by (cases xs) auto
  have least: "\<forall>y\<in>set ks. k \<le> y" and sorted: "sorted ks" using Cons.prems(1) by auto
  have len: "length xs' = length ks" using Cons.prems(2) xs by simp
  let ?others = "sorted_list_of_set (set ks - {k})"
  have others: "map (group_values (k # ks) (x # xs')) ?others = map (group_values ks xs') ?others"
    by (intro map_cong) (auto simp: group_values_Cons)
  have lhs: "concat (map (group_values (k # ks) (x # xs')) (group_keys (k # ks))) =
      x # group_values ks xs' k @ concat (map (group_values ks xs') ?others)"
    by (simp add: group_keys_Cons_least[OF least] group_values_Cons others)
  have rhs: "concat (map (group_values ks xs') (group_keys ks)) =
      group_values ks xs' k @ concat (map (group_values ks xs') ?others)"
  proof (cases "k \<in> set ks")
    case True
    then show ?thesis by (simp add: group_keys_least[OF True least])
  next
    case False
    then show ?thesis by (simp add: group_values_absent group_keys_sorted_list)
  qed
  show ?case using lhs rhs Cons.IH[OF sorted len] xs by simp
qed

text \<open>On a table whose key column is ascending, the concatenated results of the groups are
  the results row by row.\<close>

lemma groupby_apply_values_sorted:
  assumes "sorted ks" and "length xs = length ks" and "\<And>g. length (f g) = length g"
  shows "groupby_apply_values ks f xs = groupby_transform ks f xs"
proof -
  have "map (\<lambda>s. f (group_values ks xs s)) (group_keys ks) =
      map (group_values ks (groupby_transform ks f xs)) (group_keys ks)"
    by (intro map_cong refl) (simp add: group_values_groupby_transform[OF assms(2,3)])
  then have "groupby_apply_values ks f xs =
      concat (map (group_values ks (groupby_transform ks f xs)) (group_keys ks))"
    unfolding groupby_apply_values_def by (rule arg_cong)
  also have "\<dots> = groupby_transform ks f xs"
    by (rule regroup_sorted[OF assms(1)]) simp
  finally show ?thesis .
qed

section \<open>The steps of the Feature Engineering Stage\<close>

subsection \<open>The loops of the stage\<close>

lemma interpolate_feature_eq:
  assumes "wf_frame df"
  shows "interpolate_feature f df =
     Inr (case get_col df f of Inl e \<Rightarrow> df
          | Inr xs \<Rightarrow> set_col df f (interpolated_column (station_id df) xs))"
proof (cases "get_col df f")
  case (Inl e)
  then have "\<not> has_col df f" using get_col_cases[of df f] by (auto simp: has_col_iff_not_KeyError)
  then show ?thesis using Inl by (simp add: interpolate_feature_def)
next
  case (Inr xs)
  then have h: "has_col df f" by (auto simp: has_col_get_col)
  have "length xs = length (station_id df)" using wf_get_col_length[OF assms Inr] .
  then have "length (groupby_apply_values (station_id df) interpolate xs) = length (station_id df)"
    by (intro length_groupby_apply_values) simp_all
  then show ?thesis using Inr h by (simp add: interpolate_feature_def interpolated_column_def)
qed

lemma step5_loop:
  assumes "wf_frame df" and "distinct fs"
  shows "\<exists>d. for_each interpolate_feature fs df = Inr d \<and> wf_frame d \<and>
     station_id d = station_id df \<and> timestamp d = timestamp df \<and>
     (\<forall>m. get_col d m =
        (if m \<in> set fs then map_sum id (interpolated_column (station_id df)) (get_col df m)
         else get_col df m))"
  using assms
proof (induction fs arbitrary: df)
  case Nil
  then show ?case by simp
next
  case (Cons f fs)
  let ?ks = "station_id df"
  define d1 where "d1 = (case get_col df f of Inl e \<Rightarrow> df
          | Inr xs \<Rightarrow> set_col df f (interpolated_column ?ks xs))"
  have s1: "interpolate_feature f df = Inr d1"
    using interpolate_feature_eq[OF Cons.prems(1)] by (simp add: d1_def)
  have wf1: "wf_frame d1"
  proof (cases "get_col df f")
    case (Inl e)
    then show ?thesis using Cons.prems(1) by (simp add: d1_def)
  next
    case (Inr xs)
    have "length xs = length ?ks" using wf_get_col_length[OF Cons.prems(1) Inr] .
    then have "length (interpolated_column ?ks xs) = length ?ks"
      by (simp add: interpolated_column_def length_groupby_apply_values)
    then show ?thesis using Inr Cons.prems(1) by (simp add: d1_def wf_set_col)
  qed
  have id1: "station_id d1 = ?ks" "timestamp d1 = timestamp df"
    by (simp_all add: d1_def split: sum.splits)
  have g1: "get_col d1 m =
      (if m = f then map_sum id (interpolated_column ?ks) (get_col df m) else get_col df m)" for m
    using get_col_cases[of df f]
    by (auto simp: d1_def get_col_set_col split: sum.splits)
  obtain d where d: "for_each interpolate_feature fs d1 = Inr d" "wf_frame d"
      "station_id d = station_id d1" "timestamp d = timestamp d1"
      "\<forall>m. get_col d m =
        (if m \<in> set fs then map_sum id (interpolated_column (station_id d1)) (get_col d1 m)
         else get_col d1 m)"
    using Cons.IH[OF wf1] Cons.prems(2) by auto
  have "\<forall>m. get_col d m =
        (if m \<in> set (f # fs) then map_sum id (interpolated_column ?ks) (get_col df m)
         else get_col df m)"
    using d(5) g1 id1 Cons.prems(2) by auto
  then show ?case using s1 d id1 by auto
qed

lemma length_rolling_column [simp]: "length (rolling_column ks xs) = length ks"
  by (simp add: rolling_column_def)

lemma length_lag_column [simp]: "length (lag_column ks xs) = length ks"
  by (simp add: lag_column_def)

lemma derived_name_neq [simp]:
  "rolling_mean_name f \<noteq> f" "lag_1_name f \<noteq> f" "rolling_mean_name f \<noteq> lag_1_name f"
  by (simp_all add: rolling_mean_name_def lag_1_name_def)

lemma derive_feature_eq:
  "derive_feature f df =
     Inr (case get_col df f of Inl e \<Rightarrow> df
          | Inr xs \<Rightarrow> set_col (set_col df (rolling_mean_name f) (rolling_column (station_id df) xs))
                       (lag_1_name f) (lag_column (station_id df) xs))"
proof (cases "get_col df f")
  case (Inl e)
  then have "\<not> has_col df f" using get_col_cases[of df f] by (auto simp: has_col_iff_not_KeyError)
  then show ?thesis using Inl by (simp add: derive_feature_def)
next
  case (Inr xs)
  then have h: "has_col df f" by (auto simp: has_col_get_col)
  have "f \<noteq> rolling_mean_name f" using derived_name_neq(1)[of f] by metis
  then show ?thesis using Inr h
    by (simp add: derive_feature_def Let_def get_col_set_col rolling_column_def lag_column_def)
qed

lemma derived_distinct_Cons:
  assumes "distinct ((f # fs) @ derived_names (f # fs))"
  shows "distinct (fs @ derived_names fs)"
    and "f \<notin> set fs" and "f \<notin> set (derived_names fs)"
    and "rolling_mean_name f \<notin> set fs" and "rolling_mean_name f \<notin> set (derived_names fs)"
    and "lag_1_name f \<notin> set fs" and "lag_1_name f \<notin> set (derived_names fs)"
  using assms by (auto simp: derived_names_def)

lemma step6_loop:
  assumes "wf_frame df" and "distinct (fs @ derived_names fs)"
  shows "\<exists>d. for_each derive_feature fs df = Inr d \<and> wf_frame d \<and>
     station_id d = station_id df \<and> timestamp d = timestamp df \<and>
     (\<forall>f\<in>set fs. \<forall>xs. get_col df f = Inr xs \<longrightarrow>
        get_col d (rolling_mean_name f) = Inr (rolling_column (station_id df) xs) \<and>
        get_col d (lag_1_name f) = Inr (lag_column (station_id df) xs)) \<and>
     (\<forall>m. m \<notin> set (derived_names fs) \<longrightarrow> get_col d m = get_col df m)"
  using assms
proof (induction fs arbitrary: df)
  case Nil
  then show ?case by (simp add: derived_names_def)
next
  case (Cons f fs)
  let ?ks = "station_id df"
  note D = derived_distinct_Cons[OF Cons.prems(2)]
  define d1 where "d1 = (case get_col df f of Inl e \<Rightarrow> df
          | Inr xs \<Rightarrow> set_col (set_col df (rolling_mean_name f) (rolling_column ?ks xs))
                       (lag_1_name f) (lag_column ?ks xs))"
  have s1: "derive_feature f df = Inr d1" by (simp add: derive_feature_eq d1_def)
  have wf1: "wf_frame d1"
    using Cons.prems(1) by (auto simp: d1_def wf_set_col split: sum.splits)
  have id1: "station_id d1 = ?ks" "timestamp d1 = timestamp df"
    by (simp_all add: d1_def split: sum.splits)
  have g1: "m \<noteq> rolling_mean_name f \<Longrightarrow> m \<noteq> lag_1_name f \<Longrightarrow> get_col d1 m = get_col df m" for m
    by (simp add: d1_def get_col_set_col split: sum.splits)
  have new1: "get_col df f = Inr xs \<Longrightarrow>
      get_col d1 (rolling_mean_name f) = Inr (rolling_column ?ks xs) \<and>
      get_col d1 (lag_1_name f) = Inr (lag_column ?ks xs)" for xs
    by (simp add: d1_def get_col_set_col)
  obtain d where d: "for_each derive_feature fs d1 = Inr d" "wf_frame d"
      "station_id d = station_id d1" "timestamp d = timestamp d1"
    and new: "\<forall>g\<in>set fs. \<forall>xs. get_col d1 g = Inr xs \<longrightarrow>
        get_col d (rolling_mean_name g) = Inr (rolling_column (station_id d1) xs) \<and>
        get_col d (lag_1_name g) = Inr (lag_column (station_id d1) xs)"
    and old: "\<forall>m. m \<notin> set (derived_names fs) \<longrightarrow> get_col d m = get_col d1 m"
    using Cons.IH[OF wf1 D(1)] by blast
  have a: "\<forall>g\<in>set (f # fs). \<forall>xs. get_col df g = Inr xs \<longrightarrow>
        get_col d (rolling_mean_name g) = Inr (rolling_column ?ks xs) \<and>
        get_col d (lag_1_name g) = Inr (lag_column ?ks xs)"
  proof (intro ballI allI impI)
    fix g xs assume g: "g \<in> set (f # fs)" and xs: "get_col df g = Inr xs"
    show "get_col d (rolling_mean_name g) = Inr (rolling_column ?ks xs) \<and>
        get_col d (lag_1_name g) = Inr (lag_column ?ks xs)"
    proof (cases "g = f")
      case True
      then show ?thesis using new1[of xs] xs old D(5,7) by simp
    next
      case False
      then have gin: "g \<in> set fs" using g by simp
      then have "g \<noteq> rolling_mean_name f" "g \<noteq> lag_1_name f" using D(4,6) by auto
      then have "get_col d1 g = Inr xs" using g1 xs by simp
      then show ?thesis using new gin id1 by simp
    qed
  qed
  have b: "\<forall>m. m \<notin> set (derived_names (f # fs)) \<longrightarrow> get_col d m = get_col df m"
    using old g1 by (auto simp: derived_names_def)
  show ?case using s1 d id1 a b by simp
qed

text \<open>The backward fill of the derived columns.\<close>

lemma backfill_feature_eq:
  assumes "get_col df f = Inr xs" and "get_col df (lag_1_name f) = Inr l"
    and "get_col df (rolling_mean_name f) = Inr r"
  shows "backfill_feature f df =
     Inr (set_col (set_col df (lag_1_name f) (round_cells (bfill l)))
            (rolling_mean_name f) (round_cells (bfill r)))"
proof -
  have h: "has_col df f" using assms(1) by (auto simp: has_col_get_col)
  have "rolling_mean_name f \<noteq> lag_1_name f" by simp
  then show ?thesis using h assms(2,3)
    by (simp add: backfill_feature_def Let_def get_col_set_col)
qed

lemma backfill_feature_absent:
  "get_col df f = Inl KeyError \<Longrightarrow> backfill_feature f df = Inr df"
  by (simp add: backfill_feature_def has_col_iff_not_KeyError)

lemma step7_loop:
  assumes "wf_frame df" and "distinct (fs @ derived_names fs)"
    and "\<forall>f\<in>set fs. has_col df f \<longrightarrow> has_col df (rolling_mean_name f) \<and> has_col df (lag_1_name f)"
  shows "\<exists>d. for_each backfill_feature fs df = Inr d \<and> wf_frame d \<and>
     station_id d = station_id df \<and> timestamp d = timestamp df \<and>
     (\<forall>f\<in>set fs. has_col df f \<longrightarrow>
        get_col d (rolling_mean_name f) = map_sum id (\<lambda>r. round_cells (bfill r)) (get_col df (rolling_mean_name f)) \<and>
        get_col d (lag_1_name f) = map_sum id (\<lambda>l. round_cells (bfill l)) (get_col df (lag_1_name f))) \<and>
     (\<forall>m. m \<notin> set (derived_names fs) \<longrightarrow> get_col d m = get_col df m)"
  using assms
proof (induction fs arbitrary: df)
  case Nil
  then show ?case by (simp add: derived_names_def)
next
  case (Cons f fs)
  note D = derived_distinct_Cons[OF Cons.prems(2)]
  have "\<exists>d1. backfill_feature f df = Inr d1 \<and> wf_frame d1 \<and> station_id d1 = station_id df \<and>
      timestamp d1 = timestamp df \<and> (\<forall>m. has_col d1 m = has_col df m) \<and>
      (has_col df f \<longrightarrow>
        get_col d1 (rolling_mean_name f) = map_sum id (\<lambda>r. round_cells (bfill r)) (get_col df (rolling_mean_name f)) \<and>
        get_col d1 (lag_1_name f) = map_sum id (\<lambda>l. round_cells (bfill l)) (get_col df (lag_1_name f))) \<and>
      (\<forall>m. m \<noteq> rolling_mean_name f \<and> m \<noteq> lag_1_name f \<longrightarrow> get_col d1 m = get_col df m)"
  proof (cases "has_col df f")
    case False
    then have "get_col df f = Inl KeyError" by (simp add: has_col_iff_not_KeyError)
    then show ?thesis using False Cons.prems(1) by (simp add: backfill_feature_absent)
  next
    case True
    then obtain xs l r where c: "get_col df f = Inr xs" "get_col df (lag_1_name f) = Inr l"
        "get_col df (rolling_mean_name f) = Inr r"
      using Cons.prems(3) by (auto simp: has_col_get_col)
    have len: "length l = length (station_id df)" "length r = length (station_id df)"
      using wf_get_col_length[OF Cons.prems(1)] c by auto
    have hc: "has_col df (lag_1_name f)" "has_col df (rolling_mean_name f)"
      using c by (auto simp: has_col_get_col)
    have ne: "lag_1_name f \<noteq> rolling_mean_name f" using derived_name_neq(3)[of f] by metis
    show ?thesis
      apply (rule exI, intro conjI, rule backfill_feature_eq[OF c])
      using Cons.prems(1) len hc c ne
      by (auto simp: wf_set_col has_col_set_col get_col_set_col)
  qed
  then obtain d1 where s1: "backfill_feature f df = Inr d1" and wf1: "wf_frame d1"
    and id1: "station_id d1 = station_id df" "timestamp d1 = timestamp df"
    and h1: "\<forall>m. has_col d1 m = has_col df m"
    and new1: "has_col df f \<longrightarrow>
        get_col d1 (rolling_mean_name f) = map_sum id (\<lambda>r. round_cells (bfill r)) (get_col df (rolling_mean_name f)) \<and>
        get_col d1 (lag_1_name f) = map_sum id (\<lambda>l. round_cells (bfill l)) (get_col df (lag_1_name f))"
    and g1: "\<forall>m. m \<noteq> rolling_mean_name f \<and> m \<noteq> lag_1_name f \<longrightarrow> get_col d1 m = get_col df m"
    by blast
  have pre: "\<forall>g\<in>set fs. has_col d1 g \<longrightarrow> has_col d1 (rolling_mean_name g) \<and> has_col d1 (lag_1_name g)"
    using Cons.prems(3) h1 by simp
  obtain d where d: "for_each backfill_feature fs d1 = Inr d" "wf_frame d"
      "station_id d = station_id d1" "timestamp d = timestamp d1"
    and new: "\<forall>g\<in>set fs. has_col d1 g \<longrightarrow>
        get_col d (rolling_mean_name g) = map_sum id (\<lambda>r. round_cells (bfill r)) (get_col d1 (rolling_mean_name g)) \<and>
        get_col d (lag_1_name g) = map_sum id (\<lambda>l. round_cells (bfill l)) (get_col d1 (lag_1_name g))"
    and old: "\<forall>m. m \<notin> set (derived_names fs) \<longrightarrow> get_col d m = get_col d1 m"
    using Cons.IH[OF wf1 D(1) pre] by blast
  have a: "\<forall>g\<in>set (f # fs). has_col df g \<longrightarrow>
        get_col d (rolling_mean_name g) = map_sum id (\<lambda>r. round_cells (bfill r)) (get_col df (rolling_mean_name g)) \<and>
        get_col d (lag_1_name g) = map_sum id (\<lambda>l. round_cells (bfill l)) (get_col df (lag_1_name g))"
  proof (intro ballI impI)
    fix g assume g: "g \<in> set (f # fs)" and hg: "has_col df g"
    show "get_col d (rolling_mean_name g) = map_sum id (\<lambda>r. round_cells (bfill r)) (get_col df (rolling_mean_name g)) \<and>
        get_col d (lag_1_name g) = map_sum id (\<lambda>l. round_cells (bfill l)) (get_col df (lag_1_name g))"
    proof (cases "g = f")
      case True
      then show ?thesis using new1 hg old D(5,7) by simp
    next
      case False
      then have gin: "g \<in> set fs" using g by simp
      have "rolling_mean_name g \<in> set (derived_names fs)" "lag_1_name g \<in> set (derived_names fs)"
        using gin by (auto simp: derived_names_def)
      then have "rolling_mean_name g \<noteq> rolling_mean_name f" "rolling_mean_name g \<noteq> lag_1_name f"
          "lag_1_name g \<noteq> rolling_mean_name f" "lag_1_name g \<noteq> lag_1_name f"
        using D(5,7) by metis+
      then have "get_col d1 (rolling_mean_name g) = get_col df (rolling_mean_name g)"
          "get_col d1 (lag_1_name g) = get_col df (lag_1_name g)"
        using g1 by simp_all
      then show ?thesis using new gin hg h1 by simp
    qed
  qed
  have b: "\<forall>m. m \<notin> set (derived_names (f # fs)) \<longrightarrow> get_col d m = get_col df m"
    using old g1 by (auto simp: derived_names_def)
  show ?case
    apply (rule exI[of _ d])
    apply (intro conjI)
    subgoal using s1 d(1) by simp
    subgoal by (rule d(2))
    subgoal using d(3) id1(1) by simp
    subgoal using d(4) id1(2) by simp
    subgoal by (rule a)
    subgoal by (rule b)
    done
qed

lemma map_of_map_values:
  "map_of (map (\<lambda>(name, xs). (name, g xs)) al) m = map_option g (map_of al m)"
  by (induction al) auto

lemma get_col_step8_step9:
  "get_col (step9 (step8 df)) m = map_sum id (\<lambda>xs. round_cells (ffill xs)) (get_col df m)"
proof -
  have "columns (step9 (step8 df)) =
      map (\<lambda>(name, xs). (name, round_cells (ffill xs))) (columns df)"
    by (simp add: step8_def step9_def case_prod_unfold)
  then have "map_of (columns (step9 (step8 df))) m =
      map_option (\<lambda>xs. round_cells (ffill xs)) (map_of (columns df) m)"
    by (simp only: map_of_map_values)
  then show ?thesis
    by (simp add: get_col_def split: option.splits)
qed

lemma core_names_distinct: "distinct (core_features @ derived_names core_features)"
  by (simp add: derived_names_def name_defs)

lemma core_not_derived: "f \<in> set core_features \<Longrightarrow> f \<notin> set (derived_names core_features)"
  using core_names_distinct by auto

lemma distinct_core_features: "distinct core_features"
  using core_names_distinct by simp

text \<open>The table after the interpolation step and after the loop of the derivation step.\<close>

lemma step5_step6:
  assumes "wf_frame df"
  shows "\<exists>d5 d6. step5 df = Inr d5 \<and> step6_loop d5 = Inr d6 \<and> wf_frame d5 \<and> wf_frame d6 \<and>
     station_id d5 = station_id df \<and> station_id d6 = station_id df \<and>
     timestamp d6 = timestamp df \<and>
     (\<forall>f\<in>set core_features. \<forall>xs. get_col df f = Inr xs \<longrightarrow>
        get_col d5 f = Inr (interpolated_column (station_id df) xs) \<and>
        get_col d6 f = Inr (interpolated_column (station_id df) xs) \<and>
        get_col d6 (rolling_mean_name f) =
          Inr (rolling_column (station_id df) (interpolated_column (station_id df) xs)) \<and>
        get_col d6 (lag_1_name f) =
          Inr (lag_column (station_id df) (interpolated_column (station_id df) xs))) \<and>
     (\<forall>m. m \<notin> set core_features \<longrightarrow> get_col d5 m = get_col df m) \<and>
     (\<forall>m. m \<notin> set (derived_names core_features) \<longrightarrow> get_col d6 m = get_col d5 m)"
proof -
  let ?ks = "station_id df"
  obtain d5 where d5: "step5 df = Inr d5" "wf_frame d5" "station_id d5 = ?ks" "timestamp d5 = timestamp df"
    and c5: "\<forall>m. get_col d5 m =
        (if m \<in> set core_features then map_sum id (interpolated_column ?ks) (get_col df m)
         else get_col df m)"
    using step5_loop[OF assms distinct_core_features] by (auto simp: step5_def)
  obtain d6 where d6: "step6_loop d5 = Inr d6" "wf_frame d6" "station_id d6 = station_id d5"
      "timestamp d6 = timestamp d5"
    and new: "\<forall>f\<in>set core_features. \<forall>xs. get_col d5 f = Inr xs \<longrightarrow>
        get_col d6 (rolling_mean_name f) = Inr (rolling_column (station_id d5) xs) \<and>
        get_col d6 (lag_1_name f) = Inr (lag_column (station_id d5) xs)"
    and old: "\<forall>m. m \<notin> set (derived_names core_features) \<longrightarrow> get_col d6 m = get_col d5 m"
    using step6_loop[OF d5(2) core_names_distinct] by (auto simp: step6_loop_def)
  have "\<forall>f\<in>set core_features. \<forall>xs. get_col df f = Inr xs \<longrightarrow>
        get_col d5 f = Inr (interpolated_column ?ks xs) \<and>
        get_col d6 f = Inr (interpolated_column ?ks xs) \<and>
        get_col d6 (rolling_mean_name f) = Inr (rolling_column ?ks (interpolated_column ?ks xs)) \<and>
        get_col d6 (lag_1_name f) = Inr (lag_column ?ks (interpolated_column ?ks xs))"
  proof (intro ballI allI impI)
    fix f xs assume f: "f \<in> set core_features" and xs: "get_col df f = Inr xs"
    have 5: "get_col d5 f = Inr (interpolated_column ?ks xs)" using c5 f xs by simp
    have 6: "get_col d6 f = get_col d5 f" using old core_not_derived[OF f] by simp
    show "get_col d5 f = Inr (interpolated_column ?ks xs) \<and>
        get_col d6 f = Inr (interpolated_column ?ks xs) \<and>
        get_col d6 (rolling_mean_name f) = Inr (rolling_column ?ks (interpolated_column ?ks xs)) \<and>
        get_col d6 (lag_1_name f) = Inr (lag_column ?ks (interpolated_column ?ks xs))"
      using 5 6 new f d5(3) by simp
  qed
  moreover have "\<forall>m. m \<notin> set core_features \<longrightarrow> get_col d5 m = get_col df m" using c5 by simp
  ultimately show ?thesis using d5 d6 old by auto
qed

subsection \<open>Rounded columns\<close>

lemma interpolated_column_rounded: "round_cells (interpolated_column ks xs) = interpolated_column ks xs"
  by (simp add: interpolated_column_def)

lemma group_values_rounded:
  "round_cells xs = xs \<Longrightarrow> round_cells (group_values ks xs s) = group_values ks xs s"
  by (metis group_values_map round_cells_def)

lemma rounded_nth:
  "round_cells xs = xs \<Longrightarrow> j < length xs \<Longrightarrow> map_option round4 (xs ! j) = xs ! j"
  by (metis round_cells_nth)

lemma shift1_nth:
  "p < length xs \<Longrightarrow> shift1 xs ! p = (if p = 0 then None else xs ! (p - 1))"
  by (cases p) (simp_all add: shift1_def)

lemma lag_column_nth:
  assumes "length xs = length ks" and "i < length ks" and "round_cells xs = xs"
  shows "lag_column ks xs ! i =
     (if group_pos ks i = 0 then None
      else group_values ks xs (ks ! i) ! (group_pos ks i - 1))"
proof -
  let ?G = "group_values ks xs (ks ! i)" and ?p = "group_pos ks i"
  have p: "?p < length ?G" using group_values_at_pos(1)[OF assms(1,2)] .
  have "lag_column ks xs ! i = map_option round4 (shift1 ?G ! ?p)"
    using assms(2) by (simp add: lag_column_def round_cells_nth groupby_transform_nth)
  also have "\<dots> = (if ?p = 0 then None else map_option round4 (?G ! (?p - 1)))"
    using p by (simp add: shift1_nth)
  also have "\<dots> = (if ?p = 0 then None else ?G ! (?p - 1))"
    using rounded_nth[OF group_values_rounded[OF assms(3)], of "?p - 1" ks "ks ! i"] p by simp
  finally show ?thesis .
qed

text \<open>
  Claim C6. In the table as it stands after the interpolation step and the loop that
  derives the features (before any fill), the lag-1 cell of a row is missing when the row
  is the first of its station, and otherwise equals the pollutant cell of the previous row
  of the same station.
\<close>

theorem lag_1_previous_value:
  assumes "wf_frame raw_data" and "feature \<in> set core_features" and "has_col raw_data feature"
  shows "\<exists>d5 d6 xs lag.
     step5 raw_data = Inr d5 \<and> step6_loop d5 = Inr d6 \<and>
     get_col d5 feature = Inr xs \<and> get_col d6 feature = Inr xs \<and>
     get_col d6 (lag_1_name feature) = Inr lag \<and>
     length xs = length (station_id raw_data) \<and> length lag = length (station_id raw_data) \<and>
     (\<forall>i<length (station_id raw_data).
        group_values (station_id raw_data) xs (station_id raw_data ! i) ! group_pos (station_id raw_data) i = xs ! i \<and>
        (if group_pos (station_id raw_data) i = 0 then lag ! i = None
         else lag ! i =
           group_values (station_id raw_data) xs (station_id raw_data ! i) !
             (group_pos (station_id raw_data) i - 1)))"
proof -
  let ?ks = "station_id raw_data"
  obtain raw where raw: "get_col raw_data feature = Inr raw"
    using assms(3) by (auto simp: has_col_get_col)
  define xs where "xs = interpolated_column ?ks raw"
  obtain d5 d6 where s: "step5 raw_data = Inr d5" "step6_loop d5 = Inr d6" "wf_frame d5"
      "station_id d5 = ?ks"
    and c: "get_col d5 feature = Inr xs" "get_col d6 feature = Inr xs"
      "get_col d6 (lag_1_name feature) = Inr (lag_column ?ks xs)"
    using step5_step6[OF assms(1)] assms(2) raw unfolding xs_def by blast
  have len: "length xs = length ?ks" using wf_get_col_length[OF s(3) c(1)] s(4) by simp
  have r: "round_cells xs = xs" by (simp add: xs_def interpolated_column_rounded)
  have "\<forall>i<length ?ks.
        group_values ?ks xs (?ks ! i) ! group_pos ?ks i = xs ! i \<and>
        (if group_pos ?ks i = 0 then lag_column ?ks xs ! i = None
         else lag_column ?ks xs ! i = group_values ?ks xs (?ks ! i) ! (group_pos ?ks i - 1))"
    using lag_column_nth[OF len _ r] group_values_at_pos(2)[OF len] by simp
  then have rows: "\<forall>i<length ?ks.
        group_values ?ks xs (?ks ! i) ! group_pos ?ks i = xs ! i \<and>
        (if group_pos ?ks i = 0 then lag_column ?ks xs ! i = None
         else lag_column ?ks xs ! i = group_values ?ks xs (?ks ! i) ! (group_pos ?ks i - 1))" .
  have ll: "length (lag_column ?ks xs) = length ?ks" by simp
  show ?thesis
    apply (rule exI[of _ d5], rule exI[of _ d6], rule exI[of _ xs])
    apply (rule exI[of _ "lag_column ?ks xs"])
    apply (intro conjI s(1) s(2) c(1) c(2) c(3) len ll rows)
    done
qed

subsection \<open>Rolling mean\<close>

lemma map_filter_id_map_Some [simp]: "List.map_filter id (map Some vs) = vs"
  by (induction vs) (simp_all add: List.map_filter_def)


lemma window_mean_missing: "\<forall>c\<in>set ws. c = None \<Longrightarrow> window_mean 1 ws = None"
  using map_filter_id_eq_Nil[of ws] by (simp add: window_mean_def)


lemma rolling_window_props:
  assumes "p < length xs"
  shows "length (rolling_window 7 xs p) = min (Suc p) 7"
    and "last (rolling_window 7 xs p) = xs ! p"
proof -
  have l: "length (take (Suc p) xs) = Suc p" using assms by simp
  show "length (rolling_window 7 xs p) = min (Suc p) 7"
    using l by (simp add: rolling_window_def) 
  have "Suc p - 7 < length (take (Suc p) xs)" using l by simp
  then have "last (drop (Suc p - 7) (take (Suc p) xs)) = last (take (Suc p) xs)"
    by (rule last_drop)
  also have "\<dots> = xs ! p" using assms by (simp add: take_Suc_conv_app_nth)
  finally show "last (rolling_window 7 xs p) = xs ! p" by (simp add: rolling_window_def)
qed



lemma core_table_wf: "length xs = length ks \<Longrightarrow> wf_frame (core_table ks xs)"
  using distinct_core_features
  by (simp add: wf_frame_def core_table_def days_def list_all_iff o_def)

lemma core_table_has_col: "f \<in> set core_features \<Longrightarrow> has_col (core_table ks xs) f"
  by (simp add: has_col_def core_table_def o_def)

lemma nox_core: "nox \<in> set core_features"
  by (simp add: core_features_def)



theorem lag_1_previous_value_witness:
  "\<exists>d5 d6 xs lag.
     step5 (core_table [1, 1, 2] [Some 1, None, Some 5]) = Inr d5 \<and> step6_loop d5 = Inr d6 \<and>
     get_col d5 nox = Inr xs \<and> get_col d6 (lag_1_name nox) = Inr lag \<and>
     xs = [Some 1, Some 1, Some 5] \<and> lag = [None, Some 1, None]"
proof -
  let ?t = "core_table [1, 1, 2] [Some 1, None, Some 5]"
  have w: "wf_frame ?t" by (rule core_table_wf) simp
  obtain d5 d6 xs lag where d: "step5 ?t = Inr d5" "step6_loop d5 = Inr d6"
      "get_col d5 nox = Inr xs" "get_col d6 nox = Inr xs" "get_col d6 (lag_1_name nox) = Inr lag"
    using lag_1_previous_value[OF w nox_core core_table_has_col[OF nox_core]] by blast
  have "column_of (derived_table ?t) nox = Inr [Some 1, Some 1, Some 5]"
    and "column_of (derived_table ?t) (lag_1_name nox) = Inr [None, Some 1, None]"
    by code_simp+
  then have "xs = [Some 1, Some 1, Some 5]" and "lag = [None, Some 1, None]"
    using d by (simp_all add: column_of_def derived_table_def)
  then show ?thesis using d by blast
qed

subsection \<open>The positional write-back of the interpolation\<close>

lemma interpolated_column_sorted_nth:
  assumes "sorted ks" and "length xs = length ks" and "i < length ks"
  shows "interpolated_column ks xs ! i =
     round_cells (interpolate (group_values ks xs (ks ! i))) ! group_pos ks i"
proof -
  have p: "group_pos ks i < length (group_values ks xs (ks ! i))"
    using group_values_at_pos(1)[OF assms(2,3)] .
  have "interpolated_column ks xs = round_cells (groupby_transform ks interpolate xs)"
    using groupby_apply_values_sorted[OF assms(1,2), of interpolate]
    by (simp add: interpolated_column_def)
  then show ?thesis using assms(3) p
    by (simp add: round_cells_nth groupby_transform_nth)
qed

lemma unsorted_example:
  "step5 (core_table [2, 1] [Some 5, Some 6]) = Inr (core_table [2, 1] [Some 6, Some 5])"
  by code_simp

text \<open>
  Claim C10. The interpolation step assigns the concatenated results of the groups by
  position. On a table whose rows are arranged station after station in ascending
  \<^verbatim>\<open>Station_ID\<close> order (an ascending key column), every row receives the rounded
  interpolated value of its own station's series at its own rank. The step does not check
  the arrangement: on the two-row table with stations 2 and 1 it returns without an error
  and each row holds the value of the other station.
\<close>

theorem positional_write_back:
  assumes "wf_frame raw_data" and "sorted (station_id raw_data)"
    and "feature \<in> set core_features" and "get_col raw_data feature = Inr xs"
  shows "(\<exists>d5 ys. step5 raw_data = Inr d5 \<and> station_id d5 = station_id raw_data \<and>
            get_col d5 feature = Inr ys \<and> length ys = length (station_id raw_data) \<and>
            (\<forall>i<length (station_id raw_data).
               group_values (station_id raw_data) xs (station_id raw_data ! i) !
                 group_pos (station_id raw_data) i = xs ! i \<and>
               ys ! i =
                 round_cells (interpolate (group_values (station_id raw_data) xs (station_id raw_data ! i))) !
                   group_pos (station_id raw_data) i)) \<and>
         \<not> sorted (station_id (core_table [2, 1] [Some 5, Some 6])) \<and>
         step5 (core_table [2, 1] [Some 5, Some 6]) = Inr (core_table [2, 1] [Some 6, Some 5])"
proof -
  let ?ks = "station_id raw_data"
  have len: "length xs = length ?ks" using wf_get_col_length[OF assms(1,4)] .
  obtain d5 where s: "step5 raw_data = Inr d5" "station_id d5 = ?ks"
    and c: "get_col d5 feature = Inr (interpolated_column ?ks xs)"
    using step5_step6[OF assms(1)] assms(3,4) by blast
  have l: "length (interpolated_column ?ks xs) = length ?ks"
    using len by (simp add: interpolated_column_def length_groupby_apply_values)
  have rows: "\<forall>i<length ?ks.
      group_values ?ks xs (?ks ! i) ! group_pos ?ks i = xs ! i \<and>
      interpolated_column ?ks xs ! i =
        round_cells (interpolate (group_values ?ks xs (?ks ! i))) ! group_pos ?ks i"
    using interpolated_column_sorted_nth[OF assms(2) len] group_values_at_pos(2)[OF len] by simp
  have first: "\<exists>d5 ys. step5 raw_data = Inr d5 \<and> station_id d5 = ?ks \<and>
            get_col d5 feature = Inr ys \<and> length ys = length ?ks \<and>
            (\<forall>i<length ?ks.
               group_values ?ks xs (?ks ! i) ! group_pos ?ks i = xs ! i \<and>
               ys ! i = round_cells (interpolate (group_values ?ks xs (?ks ! i))) ! group_pos ?ks i)"
    apply (rule exI[of _ d5], rule exI[of _ "interpolated_column ?ks xs"])
    apply (intro conjI s c l rows)
    done
  have u: "\<not> sorted (station_id (core_table [2, 1] [Some 5, Some 6]))"
    by (simp add: core_table_def)
  show ?thesis by (intro conjI first u unsorted_example)
qed

theorem positional_write_back_witness:
  "(\<exists>d5 ys. step5 (core_table [1, 1, 1, 2, 2] [Some 1, None, Some 2, None, Some 7]) = Inr d5 \<and>
      station_id d5 = station_id (core_table [1, 1, 1, 2, 2] [Some 1, None, Some 2, None, Some 7]) \<and>
      get_col d5 nox = Inr ys \<and> ys = [Some 1, Some (3 / 2), Some 2, Some 7, Some 7])"
proof -
  let ?t = "core_table [1, 1, 1, 2, 2] [Some 1, None, Some 2, None, Some 7]"
  have w: "wf_frame ?t" by (rule core_table_wf) simp
  have s: "sorted (station_id ?t)" by (simp add: core_table_def)
  have g: "get_col ?t nox = Inr [Some 1, None, Some 2, None, Some 7]"
    by (simp add: core_table_def get_col_def name_defs)
  obtain d5 ys where d: "step5 ?t = Inr d5" "station_id d5 = station_id ?t"
      "get_col d5 nox = Inr ys"
    using positional_write_back[OF w s nox_core g] by blast
  have "column_of (step5 ?t) nox = Inr [Some 1, Some (3 / 2), Some 2, Some 7, Some 7]"
    by code_simp
  then have "ys = [Some 1, Some (3 / 2), Some 2, Some 7, Some 7]"
    using d by (simp add: column_of_def)
  then show ?thesis using d by blast
qed

subsection \<open>Inputs on which the stage departs from its description\<close>

text \<open>
  Claim C3 (the code departs from it). The notebook says of its fills that no missing value
  remains. On a table whose first row has no ammonia reading, the column has nothing above
  the first row for the forward fill to carry down, and it is not one of the back-filled
  derived columns: the finished table still holds the missing value.
\<close>

theorem leading_missing_value_remains:
  "column_of (feature_engineering (set_col (core_table [1, 1] [Some 230.5, None]) nh3 [None, Some 46.45])) nh3
     = Inr [None, Some 46.45]"
  by code_simp

lemma step6_loop_names:
  assumes "distinct (fs @ derived_names fs)"
  shows "\<exists>d. for_each derive_feature fs df = Inr d \<and>
     (\<forall>m. has_col d m \<longleftrightarrow>
        has_col df m \<or> (\<exists>f\<in>set fs. has_col df f \<and> (m = rolling_mean_name f \<or> m = lag_1_name f)))"
  using assms
proof (induction fs arbitrary: df)
  case Nil
  then show ?case by simp
next
  case (Cons f fs)
  note D = derived_distinct_Cons[OF Cons.prems]
  define d1 where "d1 = (case get_col df f of Inl e \<Rightarrow> df
          | Inr xs \<Rightarrow> set_col (set_col df (rolling_mean_name f) (rolling_column (station_id df) xs))
                       (lag_1_name f) (lag_column (station_id df) xs))"
  have s1: "derive_feature f df = Inr d1" by (simp add: derive_feature_eq d1_def)
  have h1: "has_col d1 m \<longleftrightarrow>
      has_col df m \<or> (has_col df f \<and> (m = rolling_mean_name f \<or> m = lag_1_name f))" for m
  proof (cases "get_col df f")
    case (Inl e)
    then have "\<not> has_col df f" by (simp add: has_col_get_col)
    then show ?thesis using Inl by (simp add: d1_def)
  next
    case (Inr xs)
    then have "has_col df f" by (simp add: has_col_get_col)
    then show ?thesis using Inr by (auto simp: d1_def has_col_set_col)
  qed
  obtain d where d: "for_each derive_feature fs d1 = Inr d"
    and h: "\<forall>m. has_col d m \<longleftrightarrow>
        has_col d1 m \<or> (\<exists>g\<in>set fs. has_col d1 g \<and> (m = rolling_mean_name g \<or> m = lag_1_name g))"
    using Cons.IH[OF D(1)] by blast
  have same: "has_col d1 g \<longleftrightarrow> has_col df g" if "g \<in> set fs" for g
  proof -
    have "g \<noteq> rolling_mean_name f" "g \<noteq> lag_1_name f" using that D(4,6) by auto
    then show ?thesis using h1 by simp
  qed
  have "\<forall>m. has_col d m \<longleftrightarrow>
        has_col df m \<or> (\<exists>g\<in>set (f # fs). has_col df g \<and> (m = rolling_mean_name g \<or> m = lag_1_name g))"
    using h h1 same by auto
  then show ?case using s1 d by simp
qed

lemma step7_loop_names:
  assumes "\<forall>f\<in>set fs. has_col df f \<longrightarrow> has_col df (rolling_mean_name f) \<and> has_col df (lag_1_name f)"
  shows "\<exists>d. for_each backfill_feature fs df = Inr d \<and> (\<forall>m. has_col d m \<longleftrightarrow> has_col df m)"
  using assms
proof (induction fs arbitrary: df)
  case Nil
  then show ?case by simp
next
  case (Cons f fs)
  have "\<exists>d1. backfill_feature f df = Inr d1 \<and> (\<forall>m. has_col d1 m \<longleftrightarrow> has_col df m)"
  proof (cases "has_col df f")
    case False
    then have "get_col df f = Inl KeyError" by (simp add: has_col_iff_not_KeyError)
    then show ?thesis by (simp add: backfill_feature_absent)
  next
    case True
    then obtain xs l r where c: "get_col df f = Inr xs" "get_col df (lag_1_name f) = Inr l"
        "get_col df (rolling_mean_name f) = Inr r"
      using Cons.prems by (auto simp: has_col_get_col)
    have hc: "has_col df (lag_1_name f)" "has_col df (rolling_mean_name f)"
      using c by (auto simp: has_col_get_col)
    show ?thesis
      apply (rule exI, intro conjI, rule backfill_feature_eq[OF c])
      using hc by (auto simp: has_col_set_col)
  qed
  then obtain d1 where s1: "backfill_feature f df = Inr d1"
    and h1: "\<forall>m. has_col d1 m \<longleftrightarrow> has_col df m"
    by blast
  have pre: "\<forall>g\<in>set fs. has_col d1 g \<longrightarrow> has_col d1 (rolling_mean_name g) \<and> has_col d1 (lag_1_name g)"
    using Cons.prems h1 by simp
  obtain d where "for_each backfill_feature fs d1 = Inr d" "\<forall>m. has_col d m \<longleftrightarrow> has_col d1 m"
    using Cons.IH[OF pre] by blast
  then show ?case using s1 h1 by simp
qed

text \<open>
  The three loops on their own never raise on a table, and they leave out a core pollutant
  that the table lacks: the table after the loops has the columns of the input and the two
  derived columns of every core pollutant that the input holds, and no others.
\<close>

lemma loops_skip_absent_pollutants:
  assumes "wf_frame df"
  shows "\<exists>d5 d6 d7. step5 df = Inr d5 \<and> step6_loop d5 = Inr d6 \<and> step7_loop d6 = Inr d7 \<and>
     (\<forall>m. has_col d7 m \<longleftrightarrow>
        has_col df m \<or>
        (\<exists>f\<in>set core_features. has_col df f \<and> (m = rolling_mean_name f \<or> m = lag_1_name f)))"
proof -
  obtain d5 d6 where s: "step5 df = Inr d5" "step6_loop d5 = Inr d6" "wf_frame d6"
    and c6: "\<forall>f\<in>set core_features. \<forall>xs. get_col df f = Inr xs \<longrightarrow>
        get_col d5 f = Inr (interpolated_column (station_id df) xs) \<and>
        get_col d6 f = Inr (interpolated_column (station_id df) xs) \<and>
        get_col d6 (rolling_mean_name f) =
          Inr (rolling_column (station_id df) (interpolated_column (station_id df) xs)) \<and>
        get_col d6 (lag_1_name f) =
          Inr (lag_column (station_id df) (interpolated_column (station_id df) xs))"
    and o5: "\<forall>m. m \<notin> set core_features \<longrightarrow> get_col d5 m = get_col df m"
    using step5_step6[OF assms] by blast
  obtain d5' where "for_each interpolate_feature core_features df = Inr d5'"
      "\<forall>m. get_col d5' m =
        (if m \<in> set core_features
         then map_sum id (interpolated_column (station_id df)) (get_col df m)
         else get_col df m)"
    using step5_loop[OF assms distinct_core_features] by blast
  then have g5: "get_col d5 m =
        (if m \<in> set core_features
         then map_sum id (interpolated_column (station_id df)) (get_col df m)
         else get_col df m)" for m
    using s(1) by (simp add: step5_def)
  have h5: "has_col d5 m \<longleftrightarrow> has_col df m" for m
    using get_col_cases[of df m] by (auto simp: has_col_iff_not_KeyError g5)
  obtain d6' where "for_each derive_feature core_features d5 = Inr d6'"
      "\<forall>m. has_col d6' m \<longleftrightarrow>
        has_col d5 m \<or>
        (\<exists>f\<in>set core_features. has_col d5 f \<and> (m = rolling_mean_name f \<or> m = lag_1_name f))"
    using step6_loop_names[OF core_names_distinct] by blast
  then have h6: "\<forall>m. has_col d6 m \<longleftrightarrow>
        has_col df m \<or>
        (\<exists>f\<in>set core_features. has_col df f \<and> (m = rolling_mean_name f \<or> m = lag_1_name f))"
    using s(2) h5 by (simp add: step6_loop_def)
  have pre: "\<forall>f\<in>set core_features. has_col d6 f \<longrightarrow>
      has_col d6 (rolling_mean_name f) \<and> has_col d6 (lag_1_name f)"
  proof (intro ballI impI)
    fix f assume f: "f \<in> set core_features" and "has_col d6 f"
    then have "has_col df f" using h6 core_not_derived[OF f] by (auto simp: derived_names_def)
    then show "has_col d6 (rolling_mean_name f) \<and> has_col d6 (lag_1_name f)"
      using h6 f by auto
  qed
  obtain d7 where s7: "step7_loop d6 = Inr d7"
    and h7: "\<forall>m. has_col d7 m \<longleftrightarrow> has_col d6 m"
    using step7_loop_names[OF pre] unfolding step7_loop_def by blast
  show ?thesis using s(1,2) s7 h6 h7 by auto
qed

text \<open>
  Claim C9 (the code departs from it). The three loops skip a core pollutant that the table
  lacks, but the preview printed after the derivation loop selects the rolling-mean columns
  of all five core pollutants: on a table without the PM10 column the loop derives the
  columns of the pollutants that are present and none for PM10, and the selection then
  raises \<^verbatim>\<open>KeyError\<close>, which ends the stage.
\<close>

theorem absent_pollutant_raises:
  "feature_engineering (drop_column (core_table [1, 1] [Some 1, Some 2]) pm10) = Inl KeyError \<and>
   column_of (step6_loop (drop_column (core_table [1, 1] [Some 1, Some 2]) pm10))
     (rolling_mean_name pm25) = Inr [Some 1, Some 1.5] \<and>
   column_of (step6_loop (drop_column (core_table [1, 1] [Some 1, Some 2]) pm10))
     (rolling_mean_name pm10) = Inl KeyError \<and>
   step6 (drop_column (core_table [1, 1] [Some 1, Some 2]) pm10) = Inl KeyError"
  by code_simp

subsection \<open>Series without missing cells\<close>

lemma vp_eq_Nil: "vp n xs = [] \<longleftrightarrow> (\<forall>c\<in>set xs. c = None)"
proof (induction xs arbitrary: n)
  case Nil
  then show ?case by simp
next
  case (Cons c xs)
  then show ?case by (cases c) simp_all
qed

lemma interpolate_all_valid:
  assumes "Some v \<in> set xs"
  shows "None \<notin> set (interpolate xs)"
proof -
  have "valid_points xs \<noteq> []" using assms by (auto simp: valid_points_vp vp_eq_Nil)
  then obtain p ps where "valid_points xs = p # ps" by (cases "valid_points xs") auto
  then show ?thesis by (auto simp: interpolate_def split: option.splits)
qed

lemma round_cells_all_valid: "None \<notin> set xs \<Longrightarrow> None \<notin> set (round_cells xs)"
  by (auto simp: round_cells_def)

lemma window_mean_all_valid:
  assumes "ws \<noteq> []" and "None \<notin> set ws"
  shows "window_mean 1 ws \<noteq> None"
proof -
  have "List.map_filter id ws \<noteq> []" using assms map_filter_id_eq_Nil[of ws]
    by (cases ws) auto
  then show ?thesis by (simp add: window_mean_def Let_def Suc_le_eq)
qed

lemma rolling_mean_all_valid:
  assumes "None \<notin> set xs"
  shows "None \<notin> set (rolling_mean xs)"
proof -
  have valid: "window_mean 1 (rolling_window 7 xs i) \<noteq> None" if "i < length xs" for i
  proof (rule window_mean_all_valid)
    show "rolling_window 7 xs i \<noteq> []"
      using rolling_window_props(1)[OF that] by auto
    show "None \<notin> set (rolling_window 7 xs i)"
      using assms by (auto simp: rolling_window_def dest!: in_set_dropD in_set_takeD)
  qed
  have "c \<noteq> None" if c: "c \<in> set (rolling_mean xs)" for c
  proof -
    obtain i where "i < length xs" "c = window_mean 1 (rolling_window 7 xs i)"
      using c by (auto simp: rolling_mean_def simp del: One_nat_def)
    then show ?thesis using valid by simp
  qed
  then show ?thesis by blast
qed

subsection \<open>Fills at one row\<close>

lemma bfill_nth_valid: "i < length xs \<Longrightarrow> xs ! i \<noteq> None \<Longrightarrow> bfill xs ! i = xs ! i"
proof (induction xs arbitrary: i rule: bfill.induct)
  case 1
  then show ?case by simp
next
  case (2 v xs)
  then show ?case by (cases i) simp_all
next
  case (3 xs)
  then show ?case by (cases i) (auto split: list.splits)
qed

lemma bfill_hd: "xs \<noteq> [] \<Longrightarrow> xs ! 0 \<noteq> None \<Longrightarrow> bfill xs ! 0 = xs ! 0"
  using bfill_nth_valid[of 0 xs] by simp

lemma bfill_eq_Nil [simp]: "bfill xs = [] \<longleftrightarrow> xs = []"
  by (metis length_bfill length_0_conv)

lemma bfill_nth_missing:
  "Suc i < length xs \<Longrightarrow> xs ! i = None \<Longrightarrow> bfill xs ! i = bfill xs ! Suc i"
proof (induction xs arbitrary: i rule: bfill.induct)
  case 1
  then show ?case by simp
next
  case (2 v xs)
  then show ?case by (cases i) simp_all
next
  case (3 xs)
  obtain y ys where b: "bfill xs = y # ys"
    using 3(2) by (cases "bfill xs") auto
  show ?case
  proof (cases i)
    case 0
    then show ?thesis by (simp add: b)
  next
    case (Suc j)
    then have "bfill xs ! j = bfill xs ! Suc j" using 3 by simp
    then show ?thesis using Suc by (simp add: b)
  qed
qed

lemma ffill_from_nth_valid:
  "i < length xs \<Longrightarrow> xs ! i \<noteq> None \<Longrightarrow> ffill_from p xs ! i = xs ! i"
proof (induction p xs arbitrary: i rule: ffill_from.induct)
  case (1 p)
  then show ?case by simp
next
  case (2 p v xs)
  then show ?case by (cases i) simp_all
next
  case (3 p xs)
  then show ?case by (cases i) simp_all
qed

lemma ffill_nth_valid: "i < length xs \<Longrightarrow> xs ! i \<noteq> None \<Longrightarrow> ffill xs ! i = xs ! i"
  by (simp add: ffill_def ffill_from_nth_valid)

text \<open>The two fills and roundings that a derived column goes through after its derivation,
  at a row that holds a value, and at a row without a value above a row with one.\<close>

lemma fill_chain_valid:
  assumes "i < length xs" and "xs ! i = Some v" and "round4 v = v"
  shows "round_cells (ffill (round_cells (bfill xs))) ! i = Some v"
proof -
  have 1: "round_cells (bfill xs) ! i = Some v"
    using assms by (simp add: round_cells_nth bfill_nth_valid)
  then have "ffill (round_cells (bfill xs)) ! i = Some v"
    using assms(1) by (simp add: ffill_nth_valid)
  then show ?thesis using assms(1,3) by (simp add: round_cells_nth)
qed

lemma fill_chain_missing:
  assumes "Suc i < length xs" and "xs ! i = None" and "xs ! Suc i = Some v" and "round4 v = v"
  shows "round_cells (ffill (round_cells (bfill xs))) ! i = Some v"
proof -
  have "bfill xs ! i = bfill xs ! Suc i" using assms(1,2) by (rule bfill_nth_missing)
  also have "\<dots> = Some v" using assms(1,3) by (simp add: bfill_nth_valid)
  finally have 1: "round_cells (bfill xs) ! i = Some v"
    using assms(1,4) by (simp add: round_cells_nth)
  then have "ffill (round_cells (bfill xs)) ! i = Some v"
    using assms(1) by (simp add: ffill_nth_valid)
  then show ?thesis using assms(1,4) by (simp add: round_cells_nth)
qed

lemma ffill_round_valid:
  assumes "i < length xs" and "xs ! i = Some v" and "round4 v = v"
  shows "round_cells (ffill xs) ! i = Some v"
  using assms by (simp add: round_cells_nth ffill_nth_valid)

subsection \<open>Rows of a station in an ascending key column\<close>

lemma sorted_next_row:
  assumes "sorted ks" and "i < length ks" and "group_pos ks i = 0"
    and "2 \<le> length (filter (\<lambda>k. k = ks ! i) ks)"
  shows "Suc i < length ks" and "ks ! Suc i = ks ! i" and "group_pos ks (Suc i) = 1"
proof -
  let ?s = "ks ! i"
  have "ks = take i ks @ ?s # drop (Suc i) ks" using assms(2) by (rule id_take_nth_drop)
  then have "filter (\<lambda>k. k = ?s) ks =
      filter (\<lambda>k. k = ?s) (take i ks) @ ?s # filter (\<lambda>k. k = ?s) (drop (Suc i) ks)"
    by (metis (mono_tags, lifting) filter.simps(2) filter_append)
  moreover have "filter (\<lambda>k. k = ?s) (take i ks) = []"
    using assms(3) by (simp add: group_pos_def)
  ultimately have "filter (\<lambda>k. k = ?s) (drop (Suc i) ks) \<noteq> []" using assms(4) by auto
  then obtain k where "k \<in> set (drop (Suc i) ks)" "k = ?s"
    by (auto simp: filter_empty_conv)
  then obtain j where j: "j < length (drop (Suc i) ks)" "drop (Suc i) ks ! j = ?s"
    by (auto simp: in_set_conv_nth)
  then have j': "Suc i + j < length ks" "ks ! (Suc i + j) = ?s" by simp_all
  show n: "Suc i < length ks" using j'(1) by simp
  have "ks ! i \<le> ks ! Suc i" using assms(1) n by (simp add: sorted_iff_nth_mono)
  moreover have "ks ! Suc i \<le> ks ! (Suc i + j)" using assms(1) j'(1) by (simp add: sorted_iff_nth_mono)
  ultimately show e: "ks ! Suc i = ks ! i" using j'(2) by simp
  have "take (Suc i) ks = take i ks @ [?s]" using assms(2) by (simp add: take_Suc_conv_app_nth)
  then show "group_pos ks (Suc i) = 1" using assms(3) e by (simp add: group_pos_def)
qed

subsection \<open>The columns of the finished table\<close>

lemma valid_nth: "None \<notin> set xs \<Longrightarrow> j < length xs \<Longrightarrow> \<exists>w. xs ! j = Some w"
  by (metis nth_mem not_None_eq)

lemma stage_steps:
  assumes "wf_frame df" and "\<forall>f\<in>set core_features. has_col df f"
  shows "\<exists>d7. feature_engineering df = Inr (step9 (step8 d7)) \<and> wf_frame d7 \<and>
     station_id d7 = station_id df \<and>
     (\<forall>f\<in>set core_features. \<forall>xs. get_col df f = Inr xs \<longrightarrow>
        get_col d7 f = Inr (interpolated_column (station_id df) xs) \<and>
        get_col d7 (rolling_mean_name f) =
          Inr (round_cells (bfill (rolling_column (station_id df) (interpolated_column (station_id df) xs)))) \<and>
        get_col d7 (lag_1_name f) =
          Inr (round_cells (bfill (lag_column (station_id df) (interpolated_column (station_id df) xs)))))"
proof -
  let ?ks = "station_id df"
  obtain d5 d6 where s: "step5 df = Inr d5" "step6_loop d5 = Inr d6" "wf_frame d6"
      "station_id d6 = ?ks"
    and c6: "\<forall>f\<in>set core_features. \<forall>xs. get_col df f = Inr xs \<longrightarrow>
        get_col d5 f = Inr (interpolated_column ?ks xs) \<and>
        get_col d6 f = Inr (interpolated_column ?ks xs) \<and>
        get_col d6 (rolling_mean_name f) = Inr (rolling_column ?ks (interpolated_column ?ks xs)) \<and>
        get_col d6 (lag_1_name f) = Inr (lag_column ?ks (interpolated_column ?ks xs))"
    using step5_step6[OF assms(1)] by blast
  have raw: "\<forall>f\<in>set core_features. \<exists>xs. get_col df f = Inr xs"
    using assms(2) by (simp add: has_col_get_col)
  have h6: "\<forall>f\<in>set core_features. has_col d6 f \<and> has_col d6 (rolling_mean_name f) \<and> has_col d6 (lag_1_name f)"
    using raw c6 by (metis has_col_get_col)
  have "\<forall>name\<in>set (map rolling_mean_name core_features). \<exists>xs. get_col d6 name = Inr xs \<and> True"
    using h6 by (auto simp: has_col_get_col)
  then obtain p6 where "select_columns d6 (map rolling_mean_name core_features) = Inr p6"
    using select_columns_Inr[of "map rolling_mean_name core_features" d6 "\<lambda>xs. True"] by blast
  then have s6: "step6 d5 = Inr d6" using s(2) by (simp add: step6_def)
  obtain d7 where s7: "step7_loop d6 = Inr d7" and w7: "wf_frame d7"
    and k7: "station_id d7 = station_id d6"
    and c7: "\<forall>f\<in>set core_features. has_col d6 f \<longrightarrow>
        get_col d7 (rolling_mean_name f) = map_sum id (\<lambda>r. round_cells (bfill r)) (get_col d6 (rolling_mean_name f)) \<and>
        get_col d7 (lag_1_name f) = map_sum id (\<lambda>l. round_cells (bfill l)) (get_col d6 (lag_1_name f))"
    and o7: "\<forall>m. m \<notin> set (derived_names core_features) \<longrightarrow> get_col d7 m = get_col d6 m"
    using step7_loop[OF s(3) core_names_distinct] h6 unfolding step7_loop_def by blast
  have cols7: "\<forall>f\<in>set core_features. \<forall>xs. get_col df f = Inr xs \<longrightarrow>
        get_col d7 f = Inr (interpolated_column ?ks xs) \<and>
        get_col d7 (rolling_mean_name f) =
          Inr (round_cells (bfill (rolling_column ?ks (interpolated_column ?ks xs)))) \<and>
        get_col d7 (lag_1_name f) =
          Inr (round_cells (bfill (lag_column ?ks (interpolated_column ?ks xs))))"
  proof (intro ballI allI impI)
    fix f xs assume f: "f \<in> set core_features" and xs: "get_col df f = Inr xs"
    have "get_col d7 f = get_col d6 f" using o7 core_not_derived[OF f] by simp
    moreover have "has_col d6 f" using h6 f by simp
    ultimately show "get_col d7 f = Inr (interpolated_column ?ks xs) \<and>
        get_col d7 (rolling_mean_name f) =
          Inr (round_cells (bfill (rolling_column ?ks (interpolated_column ?ks xs)))) \<and>
        get_col d7 (lag_1_name f) =
          Inr (round_cells (bfill (lag_column ?ks (interpolated_column ?ks xs))))"
      using c6 c7 f xs by simp
  qed
  have "\<forall>name\<in>set (map lag_1_name core_features). \<exists>xs. get_col d7 name = Inr xs \<and> True"
    using cols7 raw by fastforce
  then obtain p7 where "select_columns d7 (map lag_1_name core_features) = Inr p7"
    using select_columns_Inr[of "map lag_1_name core_features" d7 "\<lambda>xs. True"] by blast
  then have s7': "step7 d6 = Inr d7" using s7 by (simp add: step7_def)
  have fe: "feature_engineering df = Inr (step9 (step8 d7))"
    using s(1) s6 s7' by (simp add: feature_engineering_def)
  have k: "station_id d7 = ?ks" using k7 s(4) by simp
  show ?thesis using fe w7 k cols7 by blast
qed

lemma stage_columns:
  assumes "wf_frame df" and "\<forall>f\<in>set core_features. has_col df f"
  shows "\<exists>out. feature_engineering df = Inr out \<and>
     (\<forall>f\<in>set core_features. \<forall>xs. get_col df f = Inr xs \<longrightarrow>
        get_col out f = Inr (round_cells (ffill (interpolated_column (station_id df) xs))) \<and>
        get_col out (rolling_mean_name f) =
          Inr (round_cells (ffill (round_cells (bfill
            (rolling_column (station_id df) (interpolated_column (station_id df) xs)))))) \<and>
        get_col out (lag_1_name f) =
          Inr (round_cells (ffill (round_cells (bfill
            (lag_column (station_id df) (interpolated_column (station_id df) xs)))))))"
proof -
  let ?ks = "station_id df"
  obtain d7 where fe: "feature_engineering df = Inr (step9 (step8 d7))"
    and cols7: "\<forall>f\<in>set core_features. \<forall>xs. get_col df f = Inr xs \<longrightarrow>
        get_col d7 f = Inr (interpolated_column ?ks xs) \<and>
        get_col d7 (rolling_mean_name f) =
          Inr (round_cells (bfill (rolling_column ?ks (interpolated_column ?ks xs)))) \<and>
        get_col d7 (lag_1_name f) =
          Inr (round_cells (bfill (lag_column ?ks (interpolated_column ?ks xs))))"
    using stage_steps[OF assms] by blast
  have "\<forall>f\<in>set core_features. \<forall>xs. get_col df f = Inr xs \<longrightarrow>
        get_col (step9 (step8 d7)) f = Inr (round_cells (ffill (interpolated_column ?ks xs))) \<and>
        get_col (step9 (step8 d7)) (rolling_mean_name f) =
          Inr (round_cells (ffill (round_cells (bfill
            (rolling_column ?ks (interpolated_column ?ks xs)))))) \<and>
        get_col (step9 (step8 d7)) (lag_1_name f) =
          Inr (round_cells (ffill (round_cells (bfill
            (lag_column ?ks (interpolated_column ?ks xs))))))"
    using cols7 by (simp add: get_col_step8_step9)
  then show ?thesis using fe by blast
qed

text \<open>The finished cells of a row in terms of the series of the row's station alone: the
  table is arranged by ascending station, the station has at least two rows and at least
  one value of the pollutant.\<close>

lemma stage_station_rows:
  assumes wf: "wf_frame df" and srt: "sorted (station_id df)"
    and core: "\<forall>f\<in>set core_features. has_col df f"
    and f: "f \<in> set core_features" and xs: "get_col df f = Inr xs"
    and i: "i < length (station_id df)"
    and valid: "Some v \<in> set (group_values (station_id df) xs (station_id df ! i))"
    and two: "2 \<le> length (filter (\<lambda>k. k = station_id df ! i) (station_id df))"
  shows "\<exists>out cf cr cl. feature_engineering df = Inr out \<and>
     get_col out f = Inr cf \<and> get_col out (rolling_mean_name f) = Inr cr \<and>
     get_col out (lag_1_name f) = Inr cl \<and>
     cf ! i = round_cells (interpolate (group_values (station_id df) xs (station_id df ! i))) !
                group_pos (station_id df) i \<and>
     cr ! i = round_cells (rolling_mean (round_cells (interpolate
                (group_values (station_id df) xs (station_id df ! i))))) ! group_pos (station_id df) i \<and>
     cl ! i = round_cells (interpolate (group_values (station_id df) xs (station_id df ! i))) !
                (group_pos (station_id df) i - 1)"
proof -
  let ?ks = "station_id df"
  let ?s = "?ks ! i" and ?p = "group_pos ?ks i"
  let ?G = "group_values ?ks xs ?s"
  let ?I = "round_cells (interpolate ?G)"
  let ?X = "interpolated_column ?ks xs"
  let ?R = "rolling_column ?ks ?X" and ?L = "lag_column ?ks ?X"
  have len: "length xs = length ?ks" using wf_get_col_length[OF wf xs] .
  have lX: "length ?X = length ?ks"
    using len by (simp add: interpolated_column_def length_groupby_apply_values)
  have Xt: "?X = round_cells (groupby_transform ?ks interpolate xs)"
    using groupby_apply_values_sorted[OF srt len, of interpolate]
    by (simp add: interpolated_column_def)
  have GX: "group_values ?ks ?X s = round_cells (interpolate (group_values ?ks xs s))" for s
    unfolding Xt round_cells_def group_values_map
    using group_values_groupby_transform[OF len, of interpolate] by simp
  have p: "?p < length ?G" using group_values_at_pos(1)[OF len i] .
  then have pI: "?p < length ?I" by simp
  have Ivalid: "None \<notin> set ?I"
    using interpolate_all_valid[OF valid] by (rule round_cells_all_valid)
  have Iround: "round_cells ?I = ?I" by simp
  have Inth: "\<exists>w. ?I ! j = Some w \<and> round4 w = w" if j: "j < length ?I" for j
  proof -
    obtain w where w: "?I ! j = Some w" using valid_nth[OF Ivalid j] by blast
    have "map_option round4 (?I ! j) = ?I ! j" using rounded_nth[OF Iround j] .
    then show ?thesis using w by simp
  qed
  obtain out where out: "feature_engineering df = Inr out"
    and cf: "get_col out f = Inr (round_cells (ffill ?X))"
    and cr: "get_col out (rolling_mean_name f) = Inr (round_cells (ffill (round_cells (bfill ?R))))"
    and cl: "get_col out (lag_1_name f) = Inr (round_cells (ffill (round_cells (bfill ?L))))"
    using stage_columns[OF wf core] f xs by blast
  \<comment> \<open>the pollutant itself\<close>
  have Xi: "?X ! i = ?I ! ?p" using interpolated_column_sorted_nth[OF srt len i] .
  obtain a where a: "?I ! ?p = Some a" "round4 a = a" using Inth[OF pI] by blast
  have 1: "round_cells (ffill ?X) ! i = ?I ! ?p"
    using ffill_round_valid[of i ?X a] i lX Xi a by simp
  \<comment> \<open>the rolling mean\<close>
  let ?M = "round_cells (rolling_mean ?I)"
  have Mvalid: "None \<notin> set ?M"
    using rolling_mean_all_valid[OF Ivalid] by (rule round_cells_all_valid)
  have pM: "?p < length ?M" using pI by simp
  have Ri: "?R ! i = ?M ! ?p"
    using i pI by (simp add: rolling_column_def round_cells_nth groupby_transform_nth GX)
  obtain b where b: "?M ! ?p = Some b" using valid_nth[OF Mvalid pM] by blast
  have "map_option round4 (?M ! ?p) = ?M ! ?p"
    by (rule rounded_nth[OF _ pM]) simp
  then have rb: "round4 b = b" using b by simp
  have 2: "round_cells (ffill (round_cells (bfill ?R))) ! i = ?M ! ?p"
    using fill_chain_valid[of i ?R b] i Ri b rb by simp
  \<comment> \<open>the lag\<close>
  have Li: "?L ! j = (if group_pos ?ks j = 0 then None
      else group_values ?ks ?X (?ks ! j) ! (group_pos ?ks j - 1))" if "j < length ?ks" for j
    using lag_column_nth[OF lX that interpolated_column_rounded] .
  have 3: "round_cells (ffill (round_cells (bfill ?L))) ! i = ?I ! (?p - 1)"
  proof (cases "?p = 0")
    case False
    have "?p - 1 < length ?I" using pI by simp
    then obtain c where c: "?I ! (?p - 1) = Some c" "round4 c = c"
      using Inth by blast
    have "?L ! i = Some c" using Li[OF i] False c GX by simp
    then show ?thesis using fill_chain_valid[of i ?L c] i c by simp
  next
    case True
    note nx = sorted_next_row[OF srt i True two]
    have l1: "1 < length ?I" using group_values_at_pos(1)[OF len nx(1)] nx(2,3) by simp
    have "0 < length ?I" using l1 by (simp del: length_greater_0_conv)
    then obtain c where c: "?I ! 0 = Some c" "round4 c = c" using Inth by blast
    have "?L ! i = None" using Li[OF i] True by simp
    moreover have "?L ! Suc i = Some c" using Li[OF nx(1)] nx(2,3) c GX by simp
    ultimately show ?thesis using fill_chain_missing[of i ?L c] nx(1) c True by simp
  qed
  show ?thesis using out cf cr cl 1 2 3 by blast
qed

subsection \<open>Two runs\<close>

lemma row_of_cell:
  assumes "row_of df' i = row_of df i"
  shows "map_sum id (\<lambda>xs. xs ! i) (get_col df' name) = map_sum id (\<lambda>xs. xs ! i) (get_col df name)"
proof -
  have "map (\<lambda>(name, xs). (name, xs ! i)) (columns df') = map (\<lambda>(name, xs). (name, xs ! i)) (columns df)"
    using assms by (simp add: row_of_def)
  then have "map_of (map (\<lambda>(name, xs). (name, xs ! i)) (columns df')) name =
      map_of (map (\<lambda>(name, xs). (name, xs ! i)) (columns df)) name" by simp
  then have "map_option (\<lambda>xs. xs ! i) (map_of (columns df') name) =
      map_option (\<lambda>xs. xs ! i) (map_of (columns df) name)"
    by (simp only: map_of_map_values)
  then show ?thesis
    by (cases "map_of (columns df') name"; cases "map_of (columns df) name")
      (simp_all add: get_col_def)
qed

lemma agree_on_station:
  assumes wf: "wf_frame df" "wf_frame df'" and ks: "station_id df' = station_id df"
    and agree: "\<forall>i<length (station_id df). station_id df ! i = s \<longrightarrow> row_of df' i = row_of df i"
    and row: "s \<in> set (station_id df)"
    and xs: "get_col df name = Inr xs"
  shows "\<exists>xs'. get_col df' name = Inr xs' \<and>
     group_values (station_id df) xs' s = group_values (station_id df) xs s"
proof -
  let ?ks = "station_id df"
  obtain i0 where i0: "i0 < length ?ks" "?ks ! i0 = s" using row by (auto simp: in_set_conv_nth)
  have "map_sum id (\<lambda>xs. xs ! i0) (get_col df' name) = map_sum id (\<lambda>xs. xs ! i0) (get_col df name)"
    using row_of_cell agree i0 by blast
  then obtain xs' where xs': "get_col df' name = Inr xs'"
    using xs by (cases "get_col df' name") auto
  have len: "length xs = length ?ks" "length xs' = length ?ks"
    using wf_get_col_length[OF wf(1) xs] wf_get_col_length[OF wf(2) xs'] ks by simp_all
  have cell: "xs' ! i = xs ! i" if i: "i < length ?ks" "?ks ! i = s" for i
  proof -
    have "map_sum id (\<lambda>xs. xs ! i) (get_col df' name) = map_sum id (\<lambda>xs. xs ! i) (get_col df name)"
      using row_of_cell agree i by blast
    then show ?thesis using xs xs' by simp
  qed
  have "map (\<lambda>i. xs' ! i) (filter (\<lambda>i. ?ks ! i = s) [0..<length ?ks]) =
        map (\<lambda>i. xs ! i) (filter (\<lambda>i. ?ks ! i = s) [0..<length ?ks])"
    by (intro map_cong refl) (auto simp: cell)
  then have "group_values ?ks xs' s = group_values ?ks xs s"
    by (simp only: group_values_nths[OF len(1)] group_values_nths[OF len(2)])
  then show ?thesis using xs' by blast
qed

text \<open>
  Claim C2, amended. Take two tables with the same ascending station column that agree on
  all rows of a station \<open>s1\<close> and differ arbitrarily on the other rows (on the rows of
  another station, in particular). When \<open>s1\<close> has at least two rows and at least one
  value of every core pollutant, and all five core pollutants are present, the whole stage,
  its backward and forward fills included, returns for both tables, and every row of \<open>s1\<close>
  holds the same interpolated pollutant values, rolling means and lag-1 values in both
  results.
\<close>

theorem station_noninterference:
  assumes "wf_frame df" and "wf_frame df'"
    and "station_id df' = station_id df" and "sorted (station_id df)"
    and "\<forall>f\<in>set core_features. has_col df f"
    and "\<forall>i<length (station_id df). station_id df ! i = s1 \<longrightarrow> row_of df' i = row_of df i"
    and "2 \<le> length (filter (\<lambda>k. k = s1) (station_id df))"
    and "\<forall>f\<in>set core_features. \<forall>xs. get_col df f = Inr xs \<longrightarrow>
           (\<exists>v. Some v \<in> set (group_values (station_id df) xs s1))"
  shows "\<exists>out out'. feature_engineering df = Inr out \<and> feature_engineering df' = Inr out' \<and>
     (\<forall>i<length (station_id df). station_id df ! i = s1 \<longrightarrow>
        (\<forall>f\<in>set core_features. \<forall>name\<in>{f, rolling_mean_name f, lag_1_name f}.
           \<exists>c c'. get_col out name = Inr c \<and> get_col out' name = Inr c' \<and> c ! i = c' ! i))"
proof -
  let ?ks = "station_id df"
  have row: "s1 \<in> set ?ks"
  proof -
    have "filter (\<lambda>k. k = s1) ?ks \<noteq> []" using assms(7) by auto
    then show ?thesis by (auto simp: filter_empty_conv)
  qed
  have same: "\<exists>xs'. get_col df' name = Inr xs' \<and> group_values ?ks xs' s1 = group_values ?ks xs s1"
    if "get_col df name = Inr xs" for name xs
    using agree_on_station[OF assms(1,2,3,6) row that] .
  have core': "\<forall>f\<in>set core_features. has_col df' f"
    using assms(5) same by (metis has_col_get_col)
  obtain out where out: "feature_engineering df = Inr out"
    using stage_columns[OF assms(1,5)] by blast
  obtain out' where out': "feature_engineering df' = Inr out'"
    using stage_columns[OF assms(2) core'] by blast
  have rows: "\<forall>i<length ?ks. ?ks ! i = s1 \<longrightarrow>
        (\<forall>f\<in>set core_features. \<forall>name\<in>{f, rolling_mean_name f, lag_1_name f}.
           \<exists>c c'. get_col out name = Inr c \<and> get_col out' name = Inr c' \<and> c ! i = c' ! i)"
  proof (intro allI impI ballI)
    fix i f name
    assume i: "i < length ?ks" and s: "?ks ! i = s1" and f: "f \<in> set core_features"
      and name: "name \<in> {f, rolling_mean_name f, lag_1_name f}"
    obtain xs where xs: "get_col df f = Inr xs" using assms(5) f by (auto simp: has_col_get_col)
    obtain xs' where xs': "get_col df' f = Inr xs'"
      and G: "group_values ?ks xs' s1 = group_values ?ks xs s1"
      using same[OF xs] by blast
    obtain v where v: "Some v \<in> set (group_values ?ks xs (?ks ! i))"
      using assms(8) f xs s by blast
    have two: "2 \<le> length (filter (\<lambda>k. k = ?ks ! i) ?ks)" using assms(7) s by simp
    obtain cf cr cl where c: "get_col out f = Inr cf" "get_col out (rolling_mean_name f) = Inr cr"
        "get_col out (lag_1_name f) = Inr cl"
        "cf ! i = round_cells (interpolate (group_values ?ks xs s1)) ! group_pos ?ks i"
        "cr ! i = round_cells (rolling_mean (round_cells (interpolate (group_values ?ks xs s1)))) ! group_pos ?ks i"
        "cl ! i = round_cells (interpolate (group_values ?ks xs s1)) ! (group_pos ?ks i - 1)"
      using stage_station_rows[OF assms(1,4,5) f xs i v two] out s by auto
    have i': "i < length (station_id df')" and v': "Some v \<in> set (group_values (station_id df') xs' (station_id df' ! i))"
      and two': "2 \<le> length (filter (\<lambda>k. k = station_id df' ! i) (station_id df'))"
      and srt': "sorted (station_id df')"
      using i v two G s assms(3,4) by simp_all
    obtain cf' cr' cl' where c': "get_col out' f = Inr cf'" "get_col out' (rolling_mean_name f) = Inr cr'"
        "get_col out' (lag_1_name f) = Inr cl'"
        "cf' ! i = round_cells (interpolate (group_values ?ks xs s1)) ! group_pos ?ks i"
        "cr' ! i = round_cells (rolling_mean (round_cells (interpolate (group_values ?ks xs s1)))) ! group_pos ?ks i"
        "cl' ! i = round_cells (interpolate (group_values ?ks xs s1)) ! (group_pos ?ks i - 1)"
      using stage_station_rows[OF assms(2) srt' core' f xs' i' v' two'] out' s G assms(3) by auto
    show "\<exists>c c'. get_col out name = Inr c \<and> get_col out' name = Inr c' \<and> c ! i = c' ! i"
      using name c c' by auto
  qed
  show ?thesis using out out' rows by blast
qed

lemma core_table_get_col:
  "f \<in> set core_features \<Longrightarrow> get_col (core_table ks xs) f = Inr xs"
proof -
  have "f \<in> set fs \<Longrightarrow> map_of (map (\<lambda>f. (f, xs)) fs) f = Some xs" for fs
    by (induction fs) auto
  then show "f \<in> set core_features \<Longrightarrow> get_col (core_table ks xs) f = Inr xs"
    by (simp add: get_col_def core_table_def)
qed

theorem station_noninterference_witness:
  "(\<exists>out out'.
     feature_engineering (core_table [1, 1, 2, 2] [Some 10, Some 12, Some 20, Some 30]) = Inr out \<and>
     feature_engineering (core_table [1, 1, 2, 2] [Some 10, Some 12, Some 50, None]) = Inr out' \<and>
     (\<forall>i<length (station_id (core_table [1, 1, 2, 2] [Some 10, Some 12, Some 20, Some 30])).
        station_id (core_table [1, 1, 2, 2] [Some 10, Some 12, Some 20, Some 30]) ! i = 1 \<longrightarrow>
        (\<forall>f\<in>set core_features. \<forall>name\<in>{f, rolling_mean_name f, lag_1_name f}.
           \<exists>c c'. get_col out name = Inr c \<and> get_col out' name = Inr c' \<and> c ! i = c' ! i))) \<and>
   column_of (feature_engineering (core_table [1, 1, 2, 2] [Some 10, Some 12, Some 20, Some 30]))
     (lag_1_name nox) = Inr [Some 10, Some 10, Some 20, Some 20] \<and>
   column_of (feature_engineering (core_table [1, 1, 2, 2] [Some 10, Some 12, Some 50, None]))
     (lag_1_name nox) = Inr [Some 10, Some 10, Some 50, Some 50]"
proof -
  let ?a = "[Some 10, Some 12, Some 20, Some 30] :: cell list"
  let ?b = "[Some 10, Some 12, Some 50, None] :: cell list"
  let ?df = "core_table [1, 1, 2, 2] ?a" and ?df' = "core_table [1, 1, 2, 2] ?b"
  have w: "wf_frame ?df" "wf_frame ?df'" by (rule core_table_wf, simp)+
  have k: "station_id ?df' = station_id ?df" by (simp add: core_table_def)
  have s: "sorted (station_id ?df)" by (simp add: core_table_def)
  have h: "\<forall>f\<in>set core_features. has_col ?df f" by (simp add: core_table_has_col)
  have a: "\<forall>i<length (station_id ?df). station_id ?df ! i = 1 \<longrightarrow> row_of ?df' i = row_of ?df i"
  proof (intro allI impI)
    fix i assume "i < length (station_id ?df)" and "station_id ?df ! i = 1"
    then have "i = 0 \<or> i = 1"
      by (auto simp: core_table_def less_Suc_eq numeral_eq_Suc)
    then show "row_of ?df' i = row_of ?df i"
      by (auto simp: row_of_def core_table_def days_def)
  qed
  have t: "2 \<le> length (filter (\<lambda>k. k = 1) (station_id ?df))" by (simp add: core_table_def)
  have v: "\<forall>f\<in>set core_features. \<forall>xs. get_col ?df f = Inr xs \<longrightarrow>
      (\<exists>v. Some v \<in> set (group_values (station_id ?df) xs 1))"
  proof (intro ballI allI impI)
    fix f xs assume f: "f \<in> set core_features" and g: "get_col ?df f = Inr xs"
    have "xs = ?a" using core_table_get_col[OF f, of "[1, 1, 2, 2]" ?a] g by simp
    moreover have "group_values (station_id ?df) ?a 1 = [Some 10, Some 12]"
      by (simp add: core_table_def group_values_def)
    ultimately have "Some 10 \<in> set (group_values (station_id ?df) xs 1)" by simp
    then show "\<exists>v. Some v \<in> set (group_values (station_id ?df) xs 1)" by (rule exI)
  qed
  have c: "column_of (feature_engineering ?df) (lag_1_name nox) =
        Inr [Some 10, Some 10, Some 20, Some 20]"
      "column_of (feature_engineering ?df') (lag_1_name nox) =
        Inr [Some 10, Some 10, Some 50, Some 50]"
    by code_simp+
  show ?thesis by (intro conjI station_noninterference[OF w k s h a t v] c)
qed

text \<open>Two tables that agree on the single row of station 1 and differ on the values of
  station 2: the backward fill of the lag column carries the value of station 2 into the
  row of station 1, so the finished lag-1 cell of that row is 20 in one run and 50 in the
  other.\<close>

theorem cross_station_fill_counterexample:
  "station_id (core_table [1, 2, 2] [Some 10, Some 20, Some 30]) = [1, 2, 2] \<and>
   station_id (core_table [1, 2, 2] [Some 10, Some 50, Some 60]) = [1, 2, 2] \<and>
   row_of (core_table [1, 2, 2] [Some 10, Some 50, Some 60]) 0 =
     row_of (core_table [1, 2, 2] [Some 10, Some 20, Some 30]) 0 \<and>
   column_of (feature_engineering (core_table [1, 2, 2] [Some 10, Some 20, Some 30]))
     (lag_1_name nox) = Inr [Some 20, Some 20, Some 20] \<and>
   column_of (feature_engineering (core_table [1, 2, 2] [Some 10, Some 50, Some 60]))
     (lag_1_name nox) = Inr [Some 50, Some 50, Some 50]"
  by code_simp

subsection \<open>The finished table\<close>

lemma group_pos_Suc_same:
  assumes "Suc j < length ks" and "ks ! Suc j = ks ! j"
  shows "group_pos ks (Suc j) = Suc (group_pos ks j)"
proof -
  have "take (Suc j) ks = take j ks @ [ks ! j]" using assms(1) by (simp add: take_Suc_conv_app_nth)
  then show ?thesis using assms(2) by (simp add: group_pos_def)
qed

text \<open>
  The midpoint in the finished table. On a table arranged by ascending station that holds
  all five core pollutants, a row without a value of a core pollutant, between two rows of
  the same station with the values \<open>a\<close> and \<open>b\<close>, holds \<open>(a + b) / 2\<close> rounded to 4 decimal
  places in the table that the stage returns.
\<close>

theorem stage_fills_midpoint:
  assumes "wf_frame df" and "sorted (station_id df)"
    and "\<forall>f\<in>set core_features. has_col df f"
    and "f \<in> set core_features" and "get_col df f = Inr xs"
    and "0 < i" and "i + 1 < length (station_id df)"
    and "station_id df ! (i - 1) = station_id df ! i" and "station_id df ! (i + 1) = station_id df ! i"
    and "xs ! i = None" and "xs ! (i - 1) = Some a" and "xs ! (i + 1) = Some b"
  shows "\<exists>out c. feature_engineering df = Inr out \<and> get_col out f = Inr c \<and>
     c ! i = Some (round4 ((a + b) / 2))"
proof -
  let ?ks = "station_id df"
  let ?G = "group_values ?ks xs (?ks ! i)" and ?p = "group_pos ?ks i"
  have len: "length xs = length ?ks" using wf_get_col_length[OF assms(1,5)] .
  have i: "i < length ?ks" "i - 1 < length ?ks" using assms(7) by simp_all
  have S: "Suc (i - 1) = i" using assms(6) by simp
  have p: "?p = Suc (group_pos ?ks (i - 1))"
    using group_pos_Suc_same[of "i - 1" ?ks] assms(8) i S by simp
  have q: "group_pos ?ks (i + 1) = Suc ?p"
    using group_pos_Suc_same[of i ?ks] assms(7,9) by simp
  have Gp: "?G ! ?p = None" using group_values_at_pos(2)[OF len i(1)] assms(10) by simp
  have Gm: "?G ! (?p - 1) = Some a"
    using group_values_at_pos(2)[OF len i(2)] assms(8,11) p by simp
  have Gq: "?G ! (?p + 1) = Some b" and lq: "?p + 1 < length ?G"
    using group_values_at_pos[OF len assms(7)] assms(9,12) q by simp_all
  have "?G = take (?p - 1) ?G @ [Some a, None, Some b] @ drop (?p + 2) ?G"
    using p lq Gp Gm Gq by (intro gap_decomposition) simp_all
  then have "interpolate ?G ! Suc (length (take (?p - 1) ?G)) = Some ((a + b) / 2)"
    by (rule interpolate_gap)
  moreover have "Suc (length (take (?p - 1) ?G)) = ?p" using p lq by simp
  ultimately have "interpolate ?G ! ?p = Some ((a + b) / 2)" by simp
  then have mid: "round_cells (interpolate ?G) ! ?p = Some (round4 ((a + b) / 2))"
    using lq by (simp add: round_cells_nth)
  have "?p - 1 < length ?G" using lq by simp
  then have "?G ! (?p - 1) \<in> set ?G" by (rule nth_mem)
  then have valid: "Some a \<in> set ?G" using Gm by simp
  have "length ?G = length (filter (\<lambda>k. k = ?ks ! i) ?ks)" using len by (rule length_group_values)
  then have two: "2 \<le> length (filter (\<lambda>k. k = ?ks ! i) ?ks)" using lq by simp
  obtain out cf where "feature_engineering df = Inr out" "get_col out f = Inr cf"
      "cf ! i = round_cells (interpolate ?G) ! ?p"
    using stage_station_rows[OF assms(1,2,3,4,5) i(1) valid two] by blast
  then show ?thesis using mid by auto
qed

theorem stage_fills_midpoint_witness:
  "\<exists>out c. feature_engineering
       (core_table [1, 1, 1, 1, 1, 1, 1, 1, 1, 1]
          [Some 180, Some 190, Some 200, None, Some 220, Some 230, Some 240, Some 250, Some 260, Some 270]) = Inr out \<and>
     get_col out pm25 = Inr c \<and> c ! 3 = Some (round4 ((200 + 220) / 2))"
proof -
  let ?xs = "[Some 180, Some 190, Some 200, None, Some 220, Some 230, Some 240, Some 250, Some 260, Some 270] :: cell list"
  let ?df = "core_table [1, 1, 1, 1, 1, 1, 1, 1, 1, 1] ?xs"
  have w: "wf_frame ?df" by (rule core_table_wf) simp
  have s: "sorted (station_id ?df)" by (simp add: core_table_def)
  have h: "\<forall>f\<in>set core_features. has_col ?df f" by (simp add: core_table_has_col)
  have f: "pm25 \<in> set core_features" by (simp add: core_features_def)
  have g: "get_col ?df pm25 = Inr ?xs" by (rule core_table_get_col[OF f])
  show ?thesis
    by (rule stage_fills_midpoint[OF w s h f g, of 3 200 220]) (simp_all add: core_table_def)
qed

subsection \<open>Where missing values remain\<close>

lemma ffill_from_missing:
  "i < length xs \<Longrightarrow> ffill_from p xs ! i = None \<Longrightarrow> j \<le> i \<Longrightarrow>
   p = None \<and> ffill_from p xs ! j = None"
proof (induction p xs arbitrary: i j rule: ffill_from.induct)
  case (1 p)
  then show ?case by simp
next
  case (2 p v xs)
  then show ?case by (cases i) auto
next
  case (3 p xs)
  show ?case
  proof (cases i)
    case 0
    then show ?thesis using 3 by simp
  next
    case (Suc i')
    then have a: "p = None" and b: "\<And>j'. j' \<le> i' \<Longrightarrow> ffill_from p xs ! j' = None"
      using 3 by auto
    show ?thesis using a b Suc "3.prems"(3) by (cases j) auto
  qed
qed

text \<open>
  Missing values of the finished table. On a table that holds all five core pollutants
  the stage returns, and in every column of the returned table (and in its timestamp) a
  missing cell has only missing cells above it: what the fills leave missing is a leading
  run of a column.
\<close>

theorem missing_values_lead:
  assumes "wf_frame df" and "\<forall>f\<in>set core_features. has_col df f"
  shows "\<exists>out. feature_engineering df = Inr out \<and>
     (\<forall>name c i j. get_col out name = Inr c \<longrightarrow> i < length c \<longrightarrow> c ! i = None \<longrightarrow> j \<le> i \<longrightarrow>
        c ! j = None) \<and>
     (\<forall>i j. i < length (timestamp out) \<longrightarrow> timestamp out ! i = None \<longrightarrow> j \<le> i \<longrightarrow>
        timestamp out ! j = None)"
proof -
  obtain d7 where fe: "feature_engineering df = Inr (step9 (step8 d7))"
    using stage_steps[OF assms] by blast
  have cols: "c ! j = None"
    if c: "get_col (step9 (step8 d7)) name = Inr c" and i: "i < length c" "c ! i = None" "j \<le> i"
    for name c i j
  proof -
    obtain c7 where c7: "get_col d7 name = Inr c7" "c = round_cells (ffill c7)"
      using c by (cases "get_col d7 name") (auto simp: get_col_step8_step9)
    have l: "i < length c7" "j < length c7" using i(1,3) c7(2) by simp_all
    have "ffill c7 ! i = None" using i(2) l(1) c7(2) by (simp add: round_cells_nth)
    then have "ffill c7 ! j = None"
      using ffill_from_missing[of i c7 None j] l(1) i(3) by (simp add: ffill_def)
    then show ?thesis using l(2) c7(2) by (simp add: round_cells_nth)
  qed
  have ts: "timestamp (step9 (step8 d7)) = ffill (timestamp d7)"
    by (simp add: step8_def step9_def)
  have times: "timestamp (step9 (step8 d7)) ! j = None"
    if "i < length (timestamp (step9 (step8 d7)))" "timestamp (step9 (step8 d7)) ! i = None" "j \<le> i"
    for i j
    using that ffill_from_missing[of i "timestamp d7" None j] unfolding ts by (simp add: ffill_def)
  show ?thesis using fe cols times by blast
qed

theorem missing_values_lead_witness:
  "\<exists>out. feature_engineering (core_table [1, 1, 2] [None, Some 3, None]) = Inr out \<and>
     (\<forall>name c i j. get_col out name = Inr c \<longrightarrow> i < length c \<longrightarrow> c ! i = None \<longrightarrow> j \<le> i \<longrightarrow>
        c ! j = None) \<and>
     (\<forall>i j. i < length (timestamp out) \<longrightarrow> timestamp out ! i = None \<longrightarrow> j \<le> i \<longrightarrow>
        timestamp out ! j = None)"
proof -
  have w: "wf_frame (core_table [1, 1, 2] [None, Some 3, None])" by (rule core_table_wf) simp
  have h: "\<forall>f\<in>set core_features. has_col (core_table [1, 1, 2] [None, Some 3, None]) f"
    by (simp add: core_table_has_col)
  show ?thesis by (rule missing_values_lead[OF w h])
qed


end
